theory Spec2Isabelle
  imports Complex_Main "HOL-Library.Multiset" "HOL-Library.AList" "HOL-Library.Log_Nat"
begin

section \<open>Python values\<close>

text \<open>
  The question bank is a JSON file read by \<^verbatim>\<open>json.load\<close>, which can give any JSON value;
  the entries are meant to be Python dicts (\<^verbatim>\<open>Dict[str, Any]\<close>). A dict is an association
  list in insertion order with each key once, looked up with \<open>map_of\<close> and updated with
  \<open>AList.update\<close> (an existing key keeps its place, a new key goes to the end, as in
  Python). \<open>JFloat\<close> carries the value of a finite double.
  A JSON \<^verbatim>\<open>true\<close>/\<^verbatim>\<open>false\<close> is a Python \<^verbatim>\<open>bool\<close>, which Python counts as an
  \<^verbatim>\<open>int\<close> (1 and 0): \<open>py_int_value\<close> says so.
\<close>

datatype json =
    JNull
  | JBool bool
  | JInt int
  | JFloat rat
  | JStr string
  | JList "json list"
  | JObj "(string \<times> json) list"

type_synonym entry = "(string \<times> json) list"

datatype value_error =
    Missing_fields "string set" entry
  | Needs_four_options "json option"
  | Invalid_answer_index "json option" json

datatype error =
    FileNotFoundError
  | JSONDecodeError
  | ValueError value_error
  | AttributeError
  | KeyError string
  | TypeError
  | IndexError
  | StopIteration
  | OverflowError
  | ZeroDivisionError

text \<open>\<^verbatim>\<open>isinstance(v, int)\<close> and the integer \<open>v\<close> then stands for.\<close>

fun py_int_value :: "json \<Rightarrow> int option" where
  "py_int_value (JInt i) = Some i"
| "py_int_value (JBool b) = Some (if b then 1 else 0)"
| "py_int_value _ = None"

text \<open>\<^verbatim>\<open>n == v\<close> for an \<^verbatim>\<open>int\<close> \<open>n\<close> and any value \<open>v\<close>: numbers compare by value.\<close>

fun py_eq_int :: "int \<Rightarrow> json \<Rightarrow> bool" where
  "py_eq_int n (JInt i) = (n = i)"
| "py_eq_int n (JBool b) = (n = (if b then 1 else 0))"
| "py_eq_int n (JFloat r) = (of_int n = r)"
| "py_eq_int n _ = False"

text \<open>What iterating over a value yields; \<open>None\<close> is Python's TypeError.\<close>

fun py_iter :: "json \<Rightarrow> json list option" where
  "py_iter (JList xs) = Some xs"
| "py_iter (JStr s) = Some (map (\<lambda>c. JStr [c]) s)"
| "py_iter (JObj kvs) = Some (map (\<lambda>kv. JStr (fst kv)) kvs)"
| "py_iter _ = None"

text \<open>\<^verbatim>\<open>len(v)\<close>; \<open>None\<close> is Python's TypeError.\<close>

fun py_len :: "json \<Rightarrow> nat option" where
  "py_len (JList xs) = Some (length xs)"
| "py_len (JStr s) = Some (length s)"
| "py_len (JObj kvs) = Some (length kvs)"
| "py_len _ = None"

text \<open>
  \<^verbatim>\<open>xs[i]\<close> on a list: \<open>i\<close> from \<open>- len\<close> to \<open>-1\<close> reads from the end, anything outside
  \<open>- len \<dots> len - 1\<close> is an IndexError.
\<close>

definition py_nth :: "'a list \<Rightarrow> int \<Rightarrow> error + 'a" where
  "py_nth xs i =
     (if 0 \<le> i \<and> i < int (length xs) then Inr (xs ! nat i)
      else if i < 0 \<and> - int (length xs) \<le> i then Inr (xs ! nat (int (length xs) + i))
      else Inl IndexError)"

text \<open>\<^verbatim>\<open>xs[v]\<close> for any value \<open>v\<close>: only an \<^verbatim>\<open>int\<close> (or \<^verbatim>\<open>bool\<close>) is an index.\<close>

definition py_index :: "'a list \<Rightarrow> json \<Rightarrow> error + 'a" where
  "py_index xs v = (case py_int_value v of None \<Rightarrow> Inl TypeError | Some i \<Rightarrow> py_nth xs i)"

definition getitem :: "entry \<Rightarrow> string \<Rightarrow> error + json" where
  "getitem q k = (case map_of q k of None \<Rightarrow> Inl (KeyError k) | Some v \<Rightarrow> Inr v)"

subsection \<open>Strings\<close>

text \<open>
  A \<open>char\<close> is read as a code point below 256. \<^verbatim>\<open>str.strip()\<close> removes the characters
  Python calls whitespace (in that range: 9 to 13, 28 to 32, 133, 160) from both ends;
  \<^verbatim>\<open>str.upper()\<close> maps each character to its upper case. Two code points below 256
  have an upper case above 255 (181 and 255); the model leaves them as they are.
\<close>

definition isspace :: "char \<Rightarrow> bool" where
  "isspace c = (let n = (of_char c :: nat) in (9 \<le> n \<and> n \<le> 13) \<or> (28 \<le> n \<and> n \<le> 32) \<or> n = 133 \<or> n = 160)"

definition strip :: "string \<Rightarrow> string" where
  "strip s = rev (dropWhile isspace (rev (dropWhile isspace s)))"

definition upper_char :: "char \<Rightarrow> string" where
  "upper_char c =
     (let n = (of_char c :: nat) in
        if 97 \<le> n \<and> n \<le> 122 then [char_of (n - 32)]
        else if n = 223 then ''SS''
        else if 224 \<le> n \<and> n \<le> 254 \<and> n \<noteq> 247 then [char_of (n - 32)]
        else [c])"

definition upper :: "string \<Rightarrow> string" where
  "upper s = concat (map upper_char s)"

text \<open>
  \<^verbatim>\<open>int(s)\<close> for a string. The interpreter skips whitespace at both ends, then reads an
  optional sign and decimal digits, single underscores allowed between digits. The
  whitespace it skips is the ASCII one (9 to 13, and 32); in a string that is not ASCII
  it first turns every Unicode space above 127 (133 and 160, below 256) into a space.
  The code points 28 to 31, which \<^verbatim>\<open>str.strip()\<close> removes, are not skipped. A numeral of
  more than \<open>int_max_str_digits\<close> digits (the interpreter's default limit, 4300) is
  refused. \<open>None\<close> is ValueError.
\<close>

definition int_space :: "char \<Rightarrow> bool" where
  "int_space c = (let n = (of_char c :: nat) in (9 \<le> n \<and> n \<le> 13) \<or> n = 32 \<or> n = 133 \<or> n = 160)"

definition int_max_str_digits :: nat where
  "int_max_str_digits = 4300"

definition isdigit :: "char \<Rightarrow> bool" where
  "isdigit c = (let n = (of_char c :: nat) in 48 \<le> n \<and> n \<le> 57)"

definition digit_value :: "char \<Rightarrow> int" where
  "digit_value c = int (of_char c) - 48"

fun parse_digits :: "int \<Rightarrow> string \<Rightarrow> int option" where
  "parse_digits acc [] = Some acc"
| "parse_digits acc [c] = (if isdigit c then Some (acc * 10 + digit_value c) else None)"
| "parse_digits acc (c # d # cs) =
     (if isdigit c then parse_digits (acc * 10 + digit_value c) (d # cs)
      else if c = CHR ''_'' \<and> isdigit d then parse_digits (acc * 10 + digit_value d) cs
      else None)"

definition parse_number :: "string \<Rightarrow> int option" where
  "parse_number s =
     (case s of [] \<Rightarrow> None
      | c # cs \<Rightarrow> if isdigit c then parse_digits (digit_value c) cs else None)"

definition py_int :: "string \<Rightarrow> int option" where
  "py_int s =
     (case rev (dropWhile int_space (rev (dropWhile int_space s))) of
        [] \<Rightarrow> None
      | c # cs \<Rightarrow>
          let numeral = (if c = CHR ''-'' \<or> c = CHR ''+'' then cs else c # cs)
          in case parse_number numeral of
               None \<Rightarrow> None
             | Some v \<Rightarrow>
                 if int_max_str_digits < length (filter isdigit numeral) then None
                 else Some (if c = CHR ''-'' then - v else v))"

subsection \<open>Floating point\<close>

text \<open>
  A finite double is the rational it denotes. \<open>fl x\<close> is the double nearest to \<open>x\<close>
  (binary64: 53 significant bits, least exponent -1022, ties to the even significand),
  with the exponent unbounded above; a result of magnitude \<open>2 ^ 1024\<close> or more is an
  overflow. \<^verbatim>\<open>a / b\<close> on two \<^verbatim>\<open>int\<close>s is the correctly rounded quotient; it raises
  ZeroDivisionError when \<open>b\<close> is 0 and OverflowError when the quotient overflows. A float literal is the double nearest to the decimal.
\<close>

definition round_half_even :: "rat \<Rightarrow> int" where
  "round_half_even x =
     (let f = \<lfloor>x\<rfloor>; d = x - of_int f
      in if d < 1 / 2 then f else if 1 / 2 < d then f + 1 else if even f then f else f + 1)"

definition ilog2 :: "rat \<Rightarrow> int" where
  "ilog2 x =
     (let k = bitlen (fst (quotient_of x)) - bitlen (snd (quotient_of x))
      in if 2 powi k \<le> x then k else k - 1)"

definition fl :: "rat \<Rightarrow> rat" where
  "fl x =
     (if x = 0 then 0
      else let u = 2 powi (max (ilog2 \<bar>x\<bar>) (- 1022) - 52)
           in sgn x * of_int (round_half_even (\<bar>x\<bar> / u)) * u)"

definition overflows :: "rat \<Rightarrow> bool" where
  "overflows r = (2 ^ 1024 \<le> \<bar>r\<bar>)"

datatype pyfloat = Fin rat | Inf bool

definition py_truediv :: "int \<Rightarrow> int \<Rightarrow> error + rat" where
  "py_truediv a b =
     (if b = 0 then Inl ZeroDivisionError
      else let r = fl (of_int a / of_int b) in if overflows r then Inl OverflowError else Inr r)"

definition float_mul :: "rat \<Rightarrow> rat \<Rightarrow> pyfloat" where
  "float_mul x y = (let r = fl (x * y) in if overflows r then Inf (0 \<le> r) else Fin r)"

definition float_lit :: "rat \<Rightarrow> rat" where
  "float_lit d = fl d"

subsection \<open>The random source\<close>

text \<open>
  The process-wide generator is a stream of draws, passed along. \<^verbatim>\<open>random.shuffle(x)\<close>
  is the library's loop
  \<^verbatim>\<open>for i in reversed(range(1, len(x))): j = randbelow(i + 1); x[i], x[j] = x[j], x[i]\<close>.
\<close>

type_synonym rng = "nat \<Rightarrow> nat"

definition randbelow :: "nat \<Rightarrow> rng \<Rightarrow> nat \<times> rng" where
  "randbelow n g = (g 0 mod n, \<lambda>k. g (Suc k))"

fun shuffle_from :: "nat \<Rightarrow> 'a list \<Rightarrow> rng \<Rightarrow> 'a list \<times> rng" where
  "shuffle_from 0 x g = (x, g)"
| "shuffle_from (Suc i) x g =
     (case randbelow (Suc i + 1) g of
        (j, g') \<Rightarrow> shuffle_from i (x[Suc i := x ! j, j := x ! Suc i]) g')"

definition random_shuffle :: "'a list \<Rightarrow> rng \<Rightarrow> 'a list \<times> rng" where
  "random_shuffle x g = shuffle_from (length x - 1) x g"

section \<open>The question bank loader\<close>

text \<open>
  The questions file is absent, or its text is not JSON (\<^verbatim>\<open>json.load\<close> raises), or it is
  a JSON document. The loop runs over whatever the document is: a value that cannot be
  iterated is a TypeError, and an element that is not a dict has no \<^verbatim>\<open>keys()\<close>, an
  AttributeError. On a dict the three checks follow, in the source's order; each
  \<^verbatim>\<open>raise ValueError\<close> keeps what its message prints: the missing keys and the entry, or
  the entry's id (\<^verbatim>\<open>q.get('id')\<close>), with the offending answer_index for the last one.
  The value returned is the document itself.
\<close>

datatype questions_file = Absent | Not_json | Document json

definition required :: "string list" where
  "required = [''id'', ''question'', ''options'', ''answer_index'', ''explanation'']"

definition keys :: "entry \<Rightarrow> string set" where
  "keys q = set (map fst q)"

definition is_list_of_four :: "json \<Rightarrow> bool" where
  "is_list_of_four v = (case v of JList xs \<Rightarrow> length xs = 4 | _ \<Rightarrow> False)"

definition is_int_in_range :: "json \<Rightarrow> bool" where
  "is_int_in_range v = (case py_int_value v of None \<Rightarrow> False | Some i \<Rightarrow> \<not> (i < 0 \<or> i > 3))"

definition check_fields :: "entry \<Rightarrow> error + unit" where
  "check_fields q =
     (if \<not> set required \<subseteq> keys q
      then Inl (ValueError (Missing_fields (set required - keys q) q))
      else case getitem q ''options'' of Inl e \<Rightarrow> Inl e | Inr options \<Rightarrow>
        if \<not> is_list_of_four options
        then Inl (ValueError (Needs_four_options (map_of q ''id'')))
        else case getitem q ''answer_index'' of Inl e \<Rightarrow> Inl e | Inr ai \<Rightarrow>
          if \<not> is_int_in_range ai
          then Inl (ValueError (Invalid_answer_index (map_of q ''id'') ai))
          else Inr ())"

definition check_question :: "json \<Rightarrow> error + unit" where
  "check_question v = (case v of JObj q \<Rightarrow> check_fields q | _ \<Rightarrow> Inl AttributeError)"

fun check_questions :: "json list \<Rightarrow> error + unit" where
  "check_questions [] = Inr ()"
| "check_questions (q # qs) =
     (case check_question q of Inl e \<Rightarrow> Inl e | Inr _ \<Rightarrow> check_questions qs)"

definition load_questions :: "questions_file \<Rightarrow> error + json" where
  "load_questions file =
     (case file of
        Absent \<Rightarrow> Inl FileNotFoundError
      | Not_json \<Rightarrow> Inl JSONDecodeError
      | Document data \<Rightarrow>
          (case py_iter data of
             None \<Rightarrow> Inl TypeError
           | Some qs \<Rightarrow>
               (case check_questions qs of Inl e \<Rightarrow> Inl e | Inr _ \<Rightarrow> Inr data)))"

text \<open>\<^verbatim>\<open>len(load_questions())\<close>, and 0 on any exception.\<close>

definition question_count :: "questions_file \<Rightarrow> int" where
  "question_count file =
     (case load_questions file of
        Inl _ \<Rightarrow> 0
      | Inr data \<Rightarrow> (case py_len data of None \<Rightarrow> 0 | Some n \<Rightarrow> int n))"

section \<open>The quiz session engine\<close>

subsection \<open>Shuffling one question\<close>

text \<open>\<^verbatim>\<open>next(i for i, x in enumerate(xs) if p(x))\<close>; \<open>None\<close> is StopIteration.\<close>

fun first_index :: "('a \<Rightarrow> bool) \<Rightarrow> 'a list \<Rightarrow> nat option" where
  "first_index p [] = None"
| "first_index p (x # xs) = (if p x then Some 0 else map_option Suc (first_index p xs))"

definition shuffle_question :: "entry \<Rightarrow> rng \<Rightarrow> error + entry \<times> rng" where
  "shuffle_question q g =
     (case getitem q ''options'' of Inl e \<Rightarrow> Inl e | Inr options \<Rightarrow>
      case getitem q ''answer_index'' of Inl e \<Rightarrow> Inl e | Inr correct_idx \<Rightarrow>
      case py_iter options of None \<Rightarrow> Inl TypeError | Some items \<Rightarrow>
      case random_shuffle (enumerate 0 items) g of (indexed, g') \<Rightarrow>
      let new_options = map snd indexed
      in case first_index (\<lambda>(old_idx, _). py_eq_int (int old_idx) correct_idx) indexed of
           None \<Rightarrow> Inl StopIteration
         | Some new_correct_idx \<Rightarrow>
             Inr (AList.update ''answer_index'' (JInt (int new_correct_idx))
                    (AList.update ''options'' (JList new_options) q), g'))"

text \<open>
  \<^verbatim>\<open>[shuffle_question(q) for q in selected]\<close>; on an element that is not a dict,
  \<^verbatim>\<open>q["options"]\<close> is a TypeError.
\<close>

fun shuffle_questions :: "json list \<Rightarrow> rng \<Rightarrow> error + entry list \<times> rng" where
  "shuffle_questions [] g = Inr ([], g)"
| "shuffle_questions (q # qs) g =
     (case q of
        JObj d \<Rightarrow>
          (case shuffle_question d g of Inl e \<Rightarrow> Inl e
           | Inr (d', g') \<Rightarrow>
               (case shuffle_questions qs g' of Inl e \<Rightarrow> Inl e
                | Inr (qs', g'') \<Rightarrow> Inr (d' # qs', g'')))
      | _ \<Rightarrow> Inl TypeError)"

subsection \<open>The session\<close>

text \<open>
  The visitor's session holds the quiz under \<^verbatim>\<open>"quiz"\<close>, the persisted flag under
  \<^verbatim>\<open>"score_saved"\<close>, the player's name and the requested amount; a key that is not set
  is \<open>None\<close>. The messages of \<^verbatim>\<open>flash\<close> are kept in the session too, as the
  framework does, under \<open>flashes\<close>. Time stamps are given by the caller.
\<close>

record answer_record =
  id_rec :: json
  question :: json
  chosen :: string
  correct :: string
  is_correct :: bool
  explanation :: json

record quiz_state =
  questions :: "entry list"
  idx :: int
  score :: int
  answers :: "answer_record list"
  started_at :: string

datatype category = Error_msg | Warning_msg | Success_msg

datatype flash_msg =
    No_questions
  | Amount_adjusted int
  | No_active_quiz_go_back
  | No_active_quiz_start_new
  | Invalid_choice

record session =
  quiz :: "quiz_state option"
  score_saved :: "bool option"
  player_name :: "string option"
  amount :: "int option"
  flashes :: "(flash_msg \<times> category) list"

definition flash :: "flash_msg \<Rightarrow> category \<Rightarrow> session \<Rightarrow> session" where
  "flash m c s = s\<lparr>flashes := flashes s @ [(m, c)]\<rparr>"

definition clamp_int :: "string \<Rightarrow> int \<Rightarrow> int \<Rightarrow> int \<Rightarrow> int" where
  "clamp_int v default_v min_v max_v =
     (case py_int v of Some x \<Rightarrow> max min_v (min max_v x) | None \<Rightarrow> default_v)"

text \<open>
  \<^verbatim>\<open>load_questions\<close> returns a list, or else an empty string or an empty dict (on which
  its loop does nothing). On the empty string the shuffle does nothing, the slice
  \<^verbatim>\<open>""[:1]\<close> is empty and the quiz has no questions; a dict has no slices (TypeError;
  a KeyError from Python 3.12 on); a string that is not empty cannot be shuffled or
  indexed by a key (TypeError).
\<close>

definition build_quiz_session ::
  "int \<Rightarrow> questions_file \<Rightarrow> string \<Rightarrow> rng \<Rightarrow> session \<Rightarrow> error + session \<times> rng" where
  "build_quiz_session amount0 file now g s =
     (case load_questions file of Inl e \<Rightarrow> Inl e | Inr loaded \<Rightarrow>
      case loaded of
        JList qs0 \<Rightarrow>
          (case random_shuffle qs0 g of (qs, g1) \<Rightarrow>
           let available = int (length qs);
               amount1 = max 1 (min amount0 available);
               selected = take (nat amount1) qs
           in case shuffle_questions selected g1 of Inl e \<Rightarrow> Inl e
              | Inr (prepared, g2) \<Rightarrow>
                  Inr (s\<lparr>quiz := Some \<lparr>questions = prepared, idx = 0, score = 0,
                                        answers = [], started_at = now\<rparr>,
                          score_saved := Some False\<rparr>, g2))
      | JStr t \<Rightarrow>
          if t = []
          then Inr (s\<lparr>quiz := Some \<lparr>questions = [], idx = 0, score = 0, answers = [],
                                     started_at = now\<rparr>,
                       score_saved := Some False\<rparr>, g)
          else Inl TypeError
      | _ \<Rightarrow> Inl TypeError)"

definition current_quiz :: "session \<Rightarrow> quiz_state option" where
  "current_quiz s = quiz s"

subsection \<open>The grade band\<close>

text \<open>
  The six dicts that \<^verbatim>\<open>grade_rank\<close> returns, named by their titles (accents left out):
  Resultado indisponivel, Excelente, Muito bom, Bom, Regular, Iniciante.
\<close>

datatype rank = Resultado_indisponivel | Excelente | Muito_bom | Bom | Regular | Iniciante

definition grade_rank :: "int \<Rightarrow> int \<Rightarrow> error + rank" where
  "grade_rank s t =
     (if t \<le> 0 then Inr Resultado_indisponivel
      else case py_truediv s t of Inl e \<Rightarrow> Inl e | Inr pct \<Rightarrow>
        Inr (if pct = 1 then Excelente
             else if float_lit (8 / 10) \<le> pct then Muito_bom
             else if float_lit (6 / 10) \<le> pct then Bom
             else if float_lit (4 / 10) \<le> pct then Regular
             else Iniciante))"

subsection \<open>The request handlers\<close>

text \<open>
  A handler takes what it reads of the request and the session, and returns its response
  with the session as it leaves it; an exception that escapes is the error. The
  leaderboard is the list of the rows of table \<^verbatim>\<open>highscores\<close>, an insert appends.
\<close>

record highscore =
  name_col :: string
  score_col :: int
  total_col :: int
  percent_col :: pyfloat
  created_at_col :: string

datatype response =
    Redirect string
  | Result_page string int int pyfloat rank "answer_record list"

definition letters :: "string list" where
  "letters = [''A'', ''B'', ''C'', ''D'']"

definition answer :: "string option \<Rightarrow> session \<Rightarrow> error + response \<times> session" where
  "answer choice s =
     (case current_quiz s of
        None \<Rightarrow> Inr (Redirect ''index'', flash No_active_quiz_go_back Warning_msg s)
      | Some quiz_state \<Rightarrow>
          let i = idx quiz_state;
              qs = questions quiz_state;
              total_n = int (length qs)
          in if i \<ge> total_n then Inr (Redirect ''result'', s)
             else
               let chosen = upper (strip (case choice of None \<Rightarrow> [] | Some c \<Rightarrow> c))
               in if chosen \<notin> set letters
                  then Inr (Redirect ''quiz'', flash Invalid_choice Error_msg s)
                  else
                    case py_nth qs i of Inl e \<Rightarrow> Inl e | Inr q \<Rightarrow>
                    case getitem q ''answer_index'' of Inl e \<Rightarrow> Inl e | Inr ai \<Rightarrow>
                    case py_index letters ai of Inl e \<Rightarrow> Inl e | Inr correct_letter \<Rightarrow>
                    let ok = (chosen = correct_letter);
                        quiz1 = (if ok then quiz_state\<lparr>score := score quiz_state + 1\<rparr>
                                 else quiz_state)
                    in case getitem q ''id'' of Inl e \<Rightarrow> Inl e | Inr qid \<Rightarrow>
                       case getitem q ''question'' of Inl e \<Rightarrow> Inl e | Inr qtext \<Rightarrow>
                       case getitem q ''explanation'' of Inl e \<Rightarrow> Inl e | Inr expl \<Rightarrow>
                       let quiz2 = quiz1\<lparr>answers := answers quiz1 @
                                     [\<lparr>id_rec = qid, question = qtext, chosen = chosen,
                                       correct = correct_letter, is_correct = ok,
                                       explanation = expl\<rparr>]\<rparr>;
                           quiz3 = quiz2\<lparr>idx := idx quiz2 + 1\<rparr>
                       in Inr (Redirect ''quiz'', s\<lparr>quiz := Some quiz3\<rparr>))"

definition percent_of :: "int \<Rightarrow> int \<Rightarrow> error + pyfloat" where
  "percent_of sc total_n =
     (if total_n \<noteq> 0
      then (case py_truediv sc total_n of Inl e \<Rightarrow> Inl e | Inr r \<Rightarrow> Inr (float_mul r 100))
      else Inr (Fin 0))"

definition result ::
  "string \<Rightarrow> session \<Rightarrow> highscore list \<Rightarrow> error + response \<times> session \<times> highscore list" where
  "result now s db =
     (case current_quiz s of
        None \<Rightarrow> Inr (Redirect ''index'', flash No_active_quiz_start_new Warning_msg s, db)
      | Some quiz_state \<Rightarrow>
          let name = (case player_name s of None \<Rightarrow> ''Player'' | Some n \<Rightarrow> n);
              sc = score quiz_state;
              total_n = int (length (questions quiz_state))
          in case percent_of sc total_n of Inl e \<Rightarrow> Inl e | Inr percent \<Rightarrow>
             case grade_rank sc total_n of Inl e \<Rightarrow> Inl e | Inr rank \<Rightarrow>
             let page = Result_page name sc total_n percent rank (answers quiz_state)
             in if score_saved s \<noteq> Some True
                then Inr (page, s\<lparr>score_saved := Some True\<rparr>,
                          db @ [\<lparr>name_col = name, score_col = sc, total_col = total_n,
                                 percent_col = percent, created_at_col = now\<rparr>])
                else Inr (page, s, db))"

definition start ::
  "string option \<Rightarrow> string option \<Rightarrow> questions_file \<Rightarrow> string \<Rightarrow> rng \<Rightarrow> session
     \<Rightarrow> error + response \<times> session \<times> rng" where
  "start name_field amount_field file now g s =
     (let available = question_count file
      in if available \<le> 0 then Inr (Redirect ''index'', flash No_questions Error_msg s, g)
         else
           let stripped = strip (case name_field of None \<Rightarrow> [] | Some n \<Rightarrow> n);
               name = (if stripped = [] then ''Player'' else stripped);
               requested_raw = (case amount_field of None \<Rightarrow> [] | Some a \<Rightarrow> a);
               default_amount = min 10 available;
               requested = clamp_int requested_raw default_amount 1 available;
               s1 = (case py_int requested_raw of
                       Some raw_int \<Rightarrow>
                         if raw_int > available
                         then flash (Amount_adjusted available) Warning_msg s else s
                     | None \<Rightarrow> s);
               s2 = s1\<lparr>player_name := Some name, amount := Some requested\<rparr>
           in case build_quiz_session requested file now g s2 of
                Inl e \<Rightarrow> Inl e
              | Inr (s3, g') \<Rightarrow> Inr (Redirect ''quiz'', s3, g'))"

section \<open>Notions used in the statements\<close>

text \<open>
  \<open>ulp x\<close> is the spacing of the doubles around \<open>x\<close>. \<open>band\<close> is the classification of
  an exact fraction by the breakpoints 1, 0.8, 0.6, 0.4, highest first. \<open>normalized\<close> is
  what \<^verbatim>\<open>answer\<close> makes of the form field, and \<open>letter_index\<close> the index a letter stands for
  (A=0, B=1, C=2, D=3).
\<close>

definition ulp :: "rat \<Rightarrow> rat" where
  "ulp x = 2 powi (max (ilog2 x) (- 1022) - 52)"

definition band :: "rat \<Rightarrow> rank" where
  "band percent =
     (if percent = 1 then Excelente
      else if 8 / 10 \<le> percent then Muito_bom
      else if 6 / 10 \<le> percent then Bom
      else if 4 / 10 \<le> percent then Regular
      else Iniciante)"

definition normalized :: "string option \<Rightarrow> string" where
  "normalized choice = upper (strip (case choice of None \<Rightarrow> [] | Some c \<Rightarrow> c))"

definition letter_index :: "string \<Rightarrow> int option" where
  "letter_index s =
     (if s = ''A'' then Some 0 else if s = ''B'' then Some 1
      else if s = ''C'' then Some 2 else if s = ''D'' then Some 3 else None)"

text \<open>
  The answer_index of a question as the integer Python reads it (a JSON boolean is the
  \<^verbatim>\<open>int\<close> 1 or 0). A valid question is an entry of the file that meets the three
  constraints of the loader; \<open>violation\<close> is the constraint an invalid one breaks first.
  A valid entry is an element of the document that is a dict and a valid question;
  \<open>failure\<close> is the exception of an element that is not: the ValueError of its violation
  when it is a dict, an AttributeError when it is not. A
  prepared question is what \<^verbatim>\<open>answer\<close> needs of the current question: an answer_index in
  0..3 and the fields it copies into the answer record.
\<close>

definition correct_index :: "entry \<Rightarrow> int option" where
  "correct_index q = (case map_of q ''answer_index'' of None \<Rightarrow> None | Some v \<Rightarrow> py_int_value v)"

definition prepared_question :: "entry \<Rightarrow> bool" where
  "prepared_question q =
     ((case correct_index q of None \<Rightarrow> False | Some i \<Rightarrow> 0 \<le> i \<and> i \<le> 3)
      \<and> map_of q ''id'' \<noteq> None \<and> map_of q ''question'' \<noteq> None
      \<and> map_of q ''explanation'' \<noteq> None)"

definition valid_question :: "entry \<Rightarrow> bool" where
  "valid_question q =
     (set required \<subseteq> keys q
      \<and> (case map_of q ''options'' of Some (JList xs) \<Rightarrow> length xs = 4 | _ \<Rightarrow> False)
      \<and> (case correct_index q of None \<Rightarrow> False | Some i \<Rightarrow> 0 \<le> i \<and> i \<le> 3))"

definition violation :: "entry \<Rightarrow> value_error" where
  "violation q =
     (if \<not> set required \<subseteq> keys q then Missing_fields (set required - keys q) q
      else if \<not> (case map_of q ''options'' of Some (JList xs) \<Rightarrow> length xs = 4 | _ \<Rightarrow> False)
      then Needs_four_options (map_of q ''id'')
      else Invalid_answer_index (map_of q ''id'') (the (map_of q ''answer_index'')))"

definition valid_entry :: "json \<Rightarrow> bool" where
  "valid_entry v = (case v of JObj q \<Rightarrow> valid_question q | _ \<Rightarrow> False)"

definition failure :: "json \<Rightarrow> error" where
  "failure v = (case v of JObj q \<Rightarrow> ValueError (violation q) | _ \<Rightarrow> AttributeError)"

text \<open>
  A sequence of \<^verbatim>\<open>answer\<close> requests, a sequence of \<^verbatim>\<open>result\<close> requests (one time stamp
  each), and the invariant of the session: the position is within the questions, the log
  has one record per answered question, the score counts the correct records.
\<close>

fun answer_all :: "string option list \<Rightarrow> session \<Rightarrow> error + session" where
  "answer_all [] s = Inr s"
| "answer_all (c # cs) s =
     (case answer c s of Inl e \<Rightarrow> Inl e | Inr (_, s') \<Rightarrow> answer_all cs s')"

definition session_invariant :: "session \<Rightarrow> bool" where
  "session_invariant s =
     (case quiz s of None \<Rightarrow> False
      | Some qs \<Rightarrow>
          0 \<le> idx qs \<and> idx qs \<le> int (length (questions qs))
          \<and> int (length (answers qs)) = idx qs
          \<and> score qs = int (length (filter is_correct (answers qs))))"

fun view_results ::
  "string list \<Rightarrow> session \<Rightarrow> highscore list \<Rightarrow> error + session \<times> highscore list" where
  "view_results [] s db = Inr (s, db)"
| "view_results (now # nows) s db =
     (case result now s db of Inl e \<Rightarrow> Inl e | Inr (_, s', db') \<Rightarrow> view_results nows s' db')"

definition fresh_quiz :: "entry list \<Rightarrow> string \<Rightarrow> quiz_state" where
  "fresh_quiz prepared now =
     \<lparr>questions = prepared, idx = 0, score = 0, answers = [], started_at = now\<rparr>"

definition answered :: "quiz_state \<Rightarrow> string \<Rightarrow> quiz_state" where
  "answered qs ch =
     (let q = questions qs ! nat (idx qs);
          ok = (letter_index ch = correct_index q)
      in qs\<lparr>score := (if ok then score qs + 1 else score qs),
             answers := answers qs @
               [\<lparr>id_rec = the (map_of q ''id''), question = the (map_of q ''question''),
                 chosen = ch, correct = letters ! nat (the (correct_index q)), is_correct = ok,
                 explanation = the (map_of q ''explanation'')\<rparr>],
             idx := idx qs + 1\<rparr>)"

definition well_formed :: "session \<Rightarrow> bool" where
  "well_formed s =
     (session_invariant s \<and> (\<forall>q \<in> set (questions (the (quiz s))). prepared_question q))"

definition score_in_range :: "session \<Rightarrow> bool" where
  "score_in_range s =
     (case quiz s of None \<Rightarrow> True
      | Some qs \<Rightarrow> 0 \<le> score qs \<and> score qs \<le> int (length (questions qs)))"

text \<open>
  Concrete data: two questions and the file that holds them, a third question whose
  answer_index is the JSON \<^verbatim>\<open>true\<close>, a visitor with an empty session, a quiz just started.
\<close>

definition sample_q1 :: entry where
  "sample_q1 =
     [(''id'', JInt 1), (''question'', JStr ''Q1''),
      (''options'', JList [JStr ''a'', JStr ''b'', JStr ''c'', JStr ''d'']),
      (''answer_index'', JInt 2), (''explanation'', JStr ''E1'')]"

definition sample_q2 :: entry where
  "sample_q2 =
     [(''id'', JInt 2), (''question'', JStr ''Q2''),
      (''options'', JList [JStr ''w'', JStr ''x'', JStr ''y'', JStr ''z'']),
      (''answer_index'', JInt 0), (''explanation'', JStr ''E2'')]"

definition sample_file :: questions_file where
  "sample_file = Document (JList [JObj sample_q1, JObj sample_q2])"

definition sample_q3 :: entry where
  "sample_q3 =
     [(''id'', JInt 3), (''question'', JStr ''Q3''),
      (''options'', JList [JStr ''k'', JStr ''l'', JStr ''m'', JStr ''n'']),
      (''answer_index'', JBool True), (''explanation'', JStr ''E3'')]"

definition new_visitor :: session where
  "new_visitor =
     \<lparr>quiz = None, score_saved = None, player_name = None, amount = None, flashes = []\<rparr>"

definition sample_session :: session where
  "sample_session =
     \<lparr>quiz = Some \<lparr>questions = [sample_q1, sample_q2], idx = 0, score = 0, answers = [],
                     started_at = ''t0''\<rparr>,
      score_saved = Some False, player_name = Some ''Ann'', amount = Some 2, flashes = []\<rparr>"

section \<open>Rounding to the nearest double\<close>

text \<open>
  The exponent found by \<open>ilog2\<close> is the right one, rounding is monotone, and so the double
  quotient of two integers compares with a double literal as the exact fraction compares
  with the decimal, as long as the denominator is at most \<open>2 ^ 50\<close>.
\<close>

lemma two_powi_add: "(2::rat) powi (a + b) = 2 powi a * 2 powi b"
  by (simp add: power_int_add)

lemma two_powi_mono: "a \<le> b \<Longrightarrow> (2::rat) powi a \<le> 2 powi b"
  by (simp add: power_int_increasing)

lemma two_powi_less_cancel: "(2::rat) powi a < 2 powi b \<Longrightarrow> a < b"
  by (rule ccontr) (simp add: not_less two_powi_mono leD)

lemma rat_as_quotient:
  "x = of_int (fst (quotient_of x)) / of_int (snd (quotient_of x))"
  by (rule quotient_of_div) simp

lemma ilog2_bounds:
  assumes "0 < x"
  shows "2 powi (ilog2 x) \<le> x" and "x < 2 powi (ilog2 x + 1)"
proof -
  define a where "a = fst (quotient_of x)"
  define b where "b = snd (quotient_of x)"
  have x: "x = of_int a / of_int b" unfolding a_def b_def by (rule rat_as_quotient)
  have b: "0 < b" unfolding b_def by (rule quotient_of_denom_pos')
  have a: "0 < a" using assms b x by (simp add: zero_less_divide_iff)
  define k where "k = bitlen a - bitlen b"
  have la: "2 ^ nat (bitlen a - 1) \<le> a" and ua: "a < 2 ^ nat (bitlen a)"
    using bitlen_bounds[OF a] by auto
  have lb: "2 ^ nat (bitlen b - 1) \<le> b" and ub: "b < 2 ^ nat (bitlen b)"
    using bitlen_bounds[OF b] by auto
  have pa: "1 \<le> bitlen a" using a by (simp add: bitlen_alt_def)
  have pb: "1 \<le> bitlen b" using b by (simp add: bitlen_alt_def)
  have la': "(2::rat) powi (bitlen a - 1) \<le> of_int a"
  proof -
    have "(of_int (2 ^ nat (bitlen a - 1)) :: rat) \<le> of_int a" using la by (simp only: of_int_le_iff)
    then show ?thesis using pa by (simp add: power_int_nonneg_exp)
  qed
  have ua': "of_int a < (2::rat) powi (bitlen a)"
  proof -
    have "(of_int a :: rat) < of_int (2 ^ nat (bitlen a))" using ua by (simp only: of_int_less_iff)
    then show ?thesis using pa by (simp add: power_int_nonneg_exp)
  qed
  have lb': "(2::rat) powi (bitlen b - 1) \<le> of_int b"
  proof -
    have "(of_int (2 ^ nat (bitlen b - 1)) :: rat) \<le> of_int b" using lb by (simp only: of_int_le_iff)
    then show ?thesis using pb by (simp add: power_int_nonneg_exp)
  qed
  have ub': "of_int b < (2::rat) powi (bitlen b)"
  proof -
    have "(of_int b :: rat) < of_int (2 ^ nat (bitlen b))" using ub by (simp only: of_int_less_iff)
    then show ?thesis using pb by (simp add: power_int_nonneg_exp)
  qed
  have bq: "(0::rat) < of_int b" using b by simp
  have upper: "x < 2 powi (k + 1)"
  proof -
    have "of_int a < (2::rat) powi (k + 1) * 2 powi (bitlen b - 1)"
      using ua' by (simp add: two_powi_add[symmetric] k_def)
    also have "\<dots> \<le> 2 powi (k + 1) * of_int b"
      using lb' by (simp add: mult_left_mono)
    finally show ?thesis using bq by (simp add: x pos_divide_less_eq)
  qed
  have lower: "2 powi (k - 1) < x"
  proof -
    have "(2::rat) powi (k - 1) * of_int b < 2 powi (k - 1) * 2 powi (bitlen b)"
      using ub' by (simp add: mult_strict_left_mono)
    also have "\<dots> = 2 powi (bitlen a - 1)"
      by (simp add: two_powi_add[symmetric] k_def)
    also have "\<dots> \<le> of_int a" by (rule la')
    finally show ?thesis using bq by (simp add: x pos_less_divide_eq)
  qed
  have il: "ilog2 x = (if 2 powi k \<le> x then k else k - 1)"
    by (simp add: ilog2_def Let_def k_def a_def b_def)
  show "2 powi (ilog2 x) \<le> x" using lower by (simp add: il less_imp_le)
  show "x < 2 powi (ilog2 x + 1)" using upper by (simp add: il not_le)
qed


lemma round_half_even_of_int: "round_half_even (of_int n) = n"
  by (simp add: round_half_even_def)

lemma round_half_even_cases:
  "round_half_even x = \<lfloor>x\<rfloor> \<or> round_half_even x = \<lfloor>x\<rfloor> + 1"
  by (simp add: round_half_even_def Let_def)

lemma round_half_even_mono:
  assumes "x \<le> y"
  shows "round_half_even x \<le> round_half_even y"
proof (cases "\<lfloor>x\<rfloor> = \<lfloor>y\<rfloor>")
  case True
  then show ?thesis using assms by (auto simp: round_half_even_def Let_def)
next
  case False
  with assms have "\<lfloor>x\<rfloor> + 1 \<le> \<lfloor>y\<rfloor>" using floor_mono[OF assms] by linarith
  moreover have "round_half_even x \<le> \<lfloor>x\<rfloor> + 1" using round_half_even_cases[of x] by linarith
  moreover have "\<lfloor>y\<rfloor> \<le> round_half_even y" using round_half_even_cases[of y] by linarith
  ultimately show ?thesis by linarith
qed

lemma round_half_even_le: "x \<le> of_int n \<Longrightarrow> round_half_even x \<le> n"
  using round_half_even_mono[of x "of_int n"] by (simp add: round_half_even_of_int)

lemma round_half_even_ge: "of_int n \<le> x \<Longrightarrow> n \<le> round_half_even x"
  using round_half_even_mono[of "of_int n" x] by (simp add: round_half_even_of_int)

lemma ulp_pos: "0 < ulp x" by (simp add: ulp_def)

lemma fl_pos: "0 < x \<Longrightarrow> fl x = of_int (round_half_even (x / ulp x)) * ulp x"
  by (simp add: fl_def ulp_def Let_def)

lemma fl_zero: "fl 0 = 0" by (simp add: fl_def)

lemma fl_minus: "fl (- x) = - fl x"
  by (simp add: fl_def Let_def)

lemma ilog2_mono:
  assumes "0 < x" "x \<le> y"
  shows "ilog2 x \<le> ilog2 y"
proof -
  have "0 < y" using assms by simp
  have "2 powi (ilog2 x) \<le> x" by (rule ilog2_bounds[OF assms(1)])
  also have "x \<le> y" by fact
  also have "y < 2 powi (ilog2 y + 1)" by (rule ilog2_bounds[OF \<open>0 < y\<close>])
  finally have "ilog2 x < ilog2 y + 1" by (rule two_powi_less_cancel)
  then show ?thesis by simp
qed

lemma two_powi_nat: "0 \<le> n \<Longrightarrow> (2::rat) powi n = of_int (2 ^ nat n)"
  by (simp add: power_int_nonneg_exp)

lemma pow_ulp:
  assumes "0 \<le> k - max (ilog2 x) (- 1022) + 52"
  shows "2 powi k = of_int (2 ^ nat (k - max (ilog2 x) (- 1022) + 52)) * ulp x"
proof -
  define e where "e = max (ilog2 x) (- 1022)"
  have "(of_int (2 ^ nat (k - e + 52)) :: rat) * ulp x = 2 powi (k - e + 52) * 2 powi (e - 52)"
    using assms unfolding e_def ulp_def by (simp only: two_powi_nat)
  also have "\<dots> = 2 powi ((k - e + 52) + (e - 52))" by (simp only: two_powi_add)
  also have "(k - e + 52) + (e - 52) = k" by arith
  finally show ?thesis unfolding e_def by simp
qed

lemma fl_upper:
  assumes "0 < x" "x \<le> 2 powi k" "max (ilog2 x) (- 1022) \<le> k"
  shows "fl x \<le> 2 powi k"
proof -
  define N :: int where "N = 2 ^ nat (k - max (ilog2 x) (- 1022) + 52)"
  have p: "2 powi k = of_int N * ulp x" unfolding N_def by (rule pow_ulp) (use assms(3) in arith)
  have "x / ulp x \<le> of_int N" using assms(2) ulp_pos[of x] by (simp add: p pos_divide_le_eq)
  then have "round_half_even (x / ulp x) \<le> N" by (rule round_half_even_le)
  then have "(of_int (round_half_even (x / ulp x)) :: rat) \<le> of_int N"
    by (simp only: of_int_le_iff)
  then have "of_int (round_half_even (x / ulp x)) * ulp x \<le> of_int N * ulp x"
    using ulp_pos[of x] by (simp only: mult_le_cancel_right_pos)
  then show ?thesis by (simp only: fl_pos[OF assms(1)] p)
qed

lemma fl_lower:
  assumes "0 < x" "2 powi k \<le> x" "max (ilog2 x) (- 1022) \<le> k + 52"
  shows "2 powi k \<le> fl x"
proof -
  define N :: int where "N = 2 ^ nat (k - max (ilog2 x) (- 1022) + 52)"
  have p: "2 powi k = of_int N * ulp x" unfolding N_def by (rule pow_ulp) (use assms(3) in arith)
  have "of_int N \<le> x / ulp x" using assms(2) ulp_pos[of x] by (simp add: p pos_le_divide_eq)
  then have "N \<le> round_half_even (x / ulp x)" by (rule round_half_even_ge)
  then have "(of_int N :: rat) \<le> of_int (round_half_even (x / ulp x))"
    by (simp only: of_int_le_iff)
  then have "of_int N * ulp x \<le> of_int (round_half_even (x / ulp x)) * ulp x"
    using ulp_pos[of x] by (simp only: mult_le_cancel_right_pos)
  then show ?thesis by (simp only: fl_pos[OF assms(1)] p)
qed

lemma fl_mono_pos:
  assumes "0 < x" "x \<le> y"
  shows "fl x \<le> fl y"
proof -
  have y: "0 < y" using assms by simp
  define ex where "ex = max (ilog2 x) (- 1022)"
  define ey where "ey = max (ilog2 y) (- 1022)"
  have le: "ex \<le> ey" using ilog2_mono[OF assms] by (simp add: ex_def ey_def)
  show ?thesis
  proof (cases "ex = ey")
    case True
    then have u: "ulp x = ulp y" by (simp add: ulp_def ex_def ey_def)
    have "x / ulp y \<le> y / ulp y" using assms(2) ulp_pos[of y] by (simp add: divide_right_mono)
    then have "round_half_even (x / ulp y) \<le> round_half_even (y / ulp y)"
      by (rule round_half_even_mono)
    then have "(of_int (round_half_even (x / ulp y)) :: rat) \<le> of_int (round_half_even (y / ulp y))"
      by (simp only: of_int_le_iff)
    then show ?thesis using ulp_pos[of y]
      by (simp add: fl_pos[OF assms(1)] fl_pos[OF y] u mult_right_mono)
  next
    case False
    with le have lt: "ex < ey" by simp
    then have ey: "ey = ilog2 y" by (auto simp: ex_def ey_def max_def split: if_splits)
    have "x < 2 powi (ilog2 x + 1)" by (rule ilog2_bounds[OF assms(1)])
    also have "\<dots> \<le> 2 powi (ex + 1)" by (rule two_powi_mono) (simp add: ex_def)
    finally have "x \<le> 2 powi (ex + 1)" by simp
    then have "fl x \<le> 2 powi (ex + 1)" by (rule fl_upper[OF assms(1)]) (simp add: ex_def)
    also have "\<dots> \<le> 2 powi ey" by (rule two_powi_mono) (use lt in simp)
    also have "\<dots> \<le> fl y"
    proof (rule fl_lower[OF y])
      show "2 powi ey \<le> y" unfolding ey by (rule ilog2_bounds[OF y])
      show "max (ilog2 y) (- 1022) \<le> ey + 52" by (simp add: ey_def)
    qed
    finally show ?thesis .
  qed
qed

lemma fl_nonneg: "0 \<le> x \<Longrightarrow> 0 \<le> fl x"
proof (cases "x = 0")
  case True then show ?thesis by (simp add: fl_zero)
next
  case False
  assume "0 \<le> x"
  with False have x: "0 < x" by simp
  have "0 \<le> round_half_even (x / ulp x)"
    by (rule round_half_even_ge) (use x ulp_pos[of x] in simp)
  then show ?thesis using ulp_pos[of x] by (simp add: fl_pos[OF x])
qed

lemma fl_mono:
  assumes "x \<le> y"
  shows "fl x \<le> fl y"
proof -
  consider "0 < x" | "x = 0" | "x < 0" "0 \<le> y" | "x < 0" "y < 0" by linarith
  then show ?thesis
  proof cases
    case 1 then show ?thesis using assms by (rule fl_mono_pos)
  next
    case 2 then show ?thesis using assms fl_nonneg[of y] by (simp add: fl_zero)
  next
    case 3
    have "0 \<le> fl (- x)" by (rule fl_nonneg) (use 3 in simp)
    then have "fl x \<le> 0" by (simp add: fl_minus)
    also have "0 \<le> fl y" by (rule fl_nonneg) fact
    finally show ?thesis .
  next
    case 4
    have "fl (- y) \<le> fl (- x)" by (rule fl_mono_pos) (use 4 assms in simp_all)
    then show ?thesis by (simp add: fl_minus)
  qed
qed

lemma fl_one: "fl 1 = 1" by code_simp
lemma fl_below_one: "fl (9007199254740991 / 2^53) = 9007199254740991 / 2^53" by code_simp
lemma fl_above_one: "fl (4503599627370497 / 2^52) = 4503599627370497 / 2^52" by code_simp
lemma lit_08: "float_lit (8/10) = 7205759403792794 / 2^53" unfolding float_lit_def by code_simp
lemma fl_below_08: "fl (7205759403792793 / 2^53) = 7205759403792793 / 2^53" by code_simp
lemma lit_06: "float_lit (6/10) = 5404319552844595 / 2^53" unfolding float_lit_def by code_simp
lemma fl_below_06: "fl (5404319552844594 / 2^53) = 5404319552844594 / 2^53" by code_simp
lemma lit_04: "float_lit (4/10) = 7205759403792794 / 2^54" unfolding float_lit_def by code_simp
lemma fl_below_04: "fl (7205759403792793 / 2^54) = 7205759403792793 / 2^54" by code_simp

lemma fl_le_pow:
  assumes "0 < x" "x \<le> 2 powi k" "- 1022 \<le> k"
  shows "fl x \<le> 2 powi k"
proof (rule fl_upper[OF assms(1,2)])
  have "2 powi (ilog2 x) \<le> x" by (rule ilog2_bounds[OF assms(1)])
  also have "x \<le> 2 powi k" by fact
  also have "(2::rat) powi k < 2 powi (k + 1)" by (simp add: power_int_strict_increasing)
  finally have "ilog2 x < k + 1" by (rule two_powi_less_cancel)
  then show "max (ilog2 x) (- 1022) \<le> k" using assms(3) by simp
qed

lemma ratio_gap:
  assumes t: "0 < t" "t \<le> 2 ^ 50" and s: "5 * s \<le> a * t - 1"
  shows "(of_int s / of_int t :: rat) \<le> of_int a / 5 - 1 / (5 * 2 ^ 50)"
proof -
  have tq: "(0::rat) < of_int t" using t by simp
  have "(of_int (5 * s) :: rat) \<le> of_int (a * t - 1)" using s by (simp only: of_int_le_iff)
  then have "5 * (of_int s :: rat) \<le> of_int a * of_int t - 1" by simp
  then have "(of_int s :: rat) / of_int t \<le> (of_int a * of_int t - 1) / 5 / of_int t"
    using tq by (simp add: field_simps)
  also have "\<dots> = of_int a / 5 - 1 / (5 * of_int t)"
    using tq by (simp add: field_simps)
  also have "\<dots> \<le> of_int a / 5 - 1 / (5 * 2 ^ 50)"
  proof -
    have "(of_int t :: rat) \<le> of_int (2 ^ 50)" using t(2) by (simp only: of_int_le_iff)
    then have "(of_int t :: rat) \<le> 2 ^ 50" by simp
    then have "1 / (5 * 2 ^ 50) \<le> 1 / (5 * (of_int t :: rat))"
      using tq by (simp add: frac_le)
    then show ?thesis by simp
  qed
  finally show ?thesis .
qed


lemma fl_abs: "\<bar>fl x\<bar> = fl \<bar>x\<bar>"
proof (cases "0 \<le> x")
  case True
  then show ?thesis using fl_nonneg[of x] by simp
next
  case False
  then have "0 \<le> fl (- x)" by (intro fl_nonneg) simp
  then show ?thesis using False by (simp add: fl_minus)
qed

lemma py_truediv_returns:
  assumes "0 < t" "\<bar>s\<bar> \<le> 2 ^ 1000 * t"
  shows "py_truediv s t = Inr (fl (of_int s / of_int t))"
proof -
  define q :: rat where "q = of_int s / of_int t"
  have tq: "(0::rat) < of_int t" using assms(1) by simp
  have "(of_int \<bar>s\<bar> :: rat) \<le> of_int (2 ^ 1000 * t)" using assms(2) by (simp only: of_int_le_iff)
  then have "(of_int \<bar>s\<bar> :: rat) \<le> 2 ^ 1000 * of_int t" by simp
  then have "of_int \<bar>s\<bar> / of_int t \<le> (2 ^ 1000 :: rat)" using tq by (simp add: pos_divide_le_eq)
  moreover have "\<bar>q\<bar> = of_int \<bar>s\<bar> / of_int t" using assms(1) by (simp add: q_def)
  ultimately have q: "\<bar>q\<bar> \<le> 2 powi 1000" by simp
  have "fl \<bar>q\<bar> \<le> 2 powi 1000"
  proof (cases "\<bar>q\<bar> = 0")
    case True
    then have "fl \<bar>q\<bar> = 0" by (simp only: fl_zero)
    then show ?thesis by simp
  next
    case False
    then have "0 < \<bar>q\<bar>" by simp
    then show ?thesis using q by (rule fl_le_pow) simp
  qed
  then have "\<bar>fl q\<bar> < 2 ^ 1024" by (simp add: fl_abs)
  then show ?thesis using assms(1) by (simp add: py_truediv_def overflows_def Let_def q_def)
qed

lemma ratio_less:
  assumes "0 < t" "(of_int s / of_int t :: rat) < of_int a / 5"
  shows "5 * s \<le> a * t - 1"
proof -
  have tq: "(0::rat) < of_int t" using assms(1) by simp
  have "(of_int s :: rat) * 5 < of_int a * of_int t"
    using assms(2) tq by (simp add: field_simps)
  then have "(of_int (5 * s) :: rat) < of_int (a * t)" by (simp add: mult.commute)
  then have "5 * s < a * t" by (simp only: of_int_less_iff)
  then show ?thesis by simp
qed

lemma threshold:
  assumes t: "0 < t" "t \<le> 2 ^ 50"
    and p: "of_int a / 5 - 1 / (5 * 2 ^ 50) \<le> p" "fl p = p" "p < fl (of_int a / 5)"
  shows "(fl (of_int a / 5) \<le> fl (of_int s / of_int t)) = (of_int a / 5 \<le> (of_int s / of_int t :: rat))"
proof
  assume "of_int a / 5 \<le> (of_int s / of_int t :: rat)"
  then show "fl (of_int a / 5) \<le> fl (of_int s / of_int t)" by (rule fl_mono)
next
  assume a: "fl (of_int a / 5) \<le> fl (of_int s / of_int t)"
  show "of_int a / 5 \<le> (of_int s / of_int t :: rat)"
  proof (rule ccontr)
    assume "\<not> ?thesis"
    then have q: "(of_int s / of_int t :: rat) < of_int a / 5" by (simp only: not_le)
    have "(of_int s / of_int t :: rat) \<le> of_int a / 5 - 1 / (5 * 2 ^ 50)"
      by (rule ratio_gap[OF t ratio_less[OF t(1) q]])
    also have "\<dots> \<le> p" by fact
    finally have "fl (of_int s / of_int t) \<le> fl p" by (rule fl_mono)
    also have "fl p = p" by fact
    also have "p < fl (of_int a / 5)" by fact
    finally have "fl (of_int s / of_int t) < fl (of_int a / 5)" .
    with a show False by (simp add: not_le[symmetric])
  qed
qed

lemma fl_4_5: "fl (of_int 4 / 5) = 7205759403792794 / 2 ^ 53" by code_simp
lemma fl_3_5: "fl (of_int 3 / 5) = 5404319552844595 / 2 ^ 53" by code_simp
lemma fl_2_5: "fl (of_int 2 / 5) = 7205759403792794 / 2 ^ 54" by code_simp

lemma threshold_08:
  assumes "0 < t" "t \<le> 2 ^ 50"
  shows "(float_lit (8 / 10) \<le> fl (of_int s / of_int t)) = (8 / 10 \<le> (of_int s / of_int t :: rat))"
proof -
  have e: "(8 / 10 :: rat) = of_int 4 / 5" by simp
  show ?thesis unfolding float_lit_def e
    by (rule threshold[OF assms _ fl_below_08]) (simp, simp only: fl_4_5, simp)
qed

lemma threshold_06:
  assumes "0 < t" "t \<le> 2 ^ 50"
  shows "(float_lit (6 / 10) \<le> fl (of_int s / of_int t)) = (6 / 10 \<le> (of_int s / of_int t :: rat))"
proof -
  have e: "(6 / 10 :: rat) = of_int 3 / 5" by simp
  show ?thesis unfolding float_lit_def e
    by (rule threshold[OF assms _ fl_below_06]) (simp, simp only: fl_3_5, simp)
qed

lemma threshold_04:
  assumes "0 < t" "t \<le> 2 ^ 50"
  shows "(float_lit (4 / 10) \<le> fl (of_int s / of_int t)) = (4 / 10 \<le> (of_int s / of_int t :: rat))"
proof -
  have e: "(4 / 10 :: rat) = of_int 2 / 5" by simp
  show ?thesis unfolding float_lit_def e
    by (rule threshold[OF assms _ fl_below_04]) (simp, simp only: fl_2_5, simp)
qed

lemma threshold_1:
  assumes t: "0 < t" "t \<le> 2 ^ 50"
  shows "(fl (of_int s / of_int t) = 1) = ((of_int s / of_int t :: rat) = 1)"
proof -
  define q :: rat where "q = of_int s / of_int t"
  have tq: "(0::rat) < of_int t" using t by simp
  consider "q = 1" | "q < 1" | "1 < q" by fastforce
  then have "(fl q = 1) = (q = 1)"
  proof cases
    case 1 then show ?thesis by (simp add: fl_one)
  next
    case 2
    then have "(of_int s / of_int t :: rat) < of_int 5 / 5" by (simp add: q_def)
    then have "(of_int s / of_int t :: rat) \<le> of_int 5 / 5 - 1 / (5 * 2 ^ 50)"
      by (intro ratio_gap[OF t] ratio_less[OF t(1)])
    then have "q \<le> 9007199254740991 / 2 ^ 53" unfolding q_def by simp
    then have "fl q \<le> fl (9007199254740991 / 2 ^ 53)" by (rule fl_mono)
    then have "fl q \<le> 9007199254740991 / 2 ^ 53" by (simp only: fl_below_one)
    also have "(9007199254740991 / 2 ^ 53 :: rat) < 1" by simp
    finally have "fl q < 1" .
    then show ?thesis using 2 by simp
  next
    case 3
    then have "of_int t < (of_int s :: rat)" using tq by (simp add: q_def field_simps)
    then have "t < s" by (simp only: of_int_less_iff)
    then have "t + 1 \<le> s" by simp
    then have "(of_int (t + 1) :: rat) \<le> of_int s" by (simp only: of_int_le_iff)
    then have "(of_int t + 1) / of_int t \<le> q" using tq by (simp add: q_def divide_right_mono)
    moreover have "(of_int t + 1) / of_int t = 1 + 1 / (of_int t :: rat)"
      using tq by (simp add: field_simps)
    moreover have "1 / 2 ^ 50 \<le> 1 / (of_int t :: rat)"
    proof -
      have "(of_int t :: rat) \<le> of_int (2 ^ 50)" using t(2) by (simp only: of_int_le_iff)
      then show ?thesis using tq by (simp add: frac_le)
    qed
    ultimately have "4503599627370497 / 2 ^ 52 \<le> q" by simp
    then have "fl (4503599627370497 / 2 ^ 52) \<le> fl q" by (rule fl_mono)
    then have "4503599627370497 / 2 ^ 52 \<le> fl q" by (simp only: fl_above_one)
    moreover have "1 < (4503599627370497 / 2 ^ 52 :: rat)" by simp
    ultimately have "1 < fl q" by (rule less_le_trans[rotated])
    then show ?thesis using 3 by simp
  qed
  then show ?thesis by (simp only: q_def)
qed

lemma grade_rank_exact:
  assumes "0 < t" "t \<le> 2 ^ 50" "\<bar>s\<bar> \<le> 2 ^ 1000"
  shows "grade_rank s t = Inr (band (of_int s / of_int t))"
proof -
  have nz: "\<not> t \<le> 0" using assms(1) by simp
  have "(2 ^ 1000 :: int) * 1 \<le> 2 ^ 1000 * t" using assms(1) by (intro mult_left_mono) simp_all
  with assms(3) have b: "\<bar>s\<bar> \<le> 2 ^ 1000 * t" by simp
  show ?thesis
    unfolding grade_rank_def band_def
    by (simp only: nz if_False py_truediv_returns[OF assms(1) b] sum.case
      threshold_1[OF assms(1,2)] threshold_08[OF assms(1,2)]
      threshold_06[OF assms(1,2)] threshold_04[OF assms(1,2)])
qed

section \<open>The shuffle\<close>

text \<open>For every stream of draws, \<^verbatim>\<open>random.shuffle\<close> returns a permutation of its argument.\<close>

lemma randbelow_less: "0 < n \<Longrightarrow> fst (randbelow n g) < n"
  by (simp add: randbelow_def)

lemma shuffle_from_mset:
  "i < length x \<Longrightarrow> mset (fst (shuffle_from i x g)) = mset x"
proof (induction i arbitrary: x g)
  case 0
  then show ?case by simp
next
  case (Suc i)
  obtain j g' where r: "randbelow (Suc i + 1) g = (j, g')" by (cases "randbelow (Suc i + 1) g")
  have "j < Suc i + 1" using randbelow_less[of "Suc i + 1" g] r by simp
  with Suc.prems have j: "j < length x" by simp
  let ?x = "x[Suc i := x ! j, j := x ! Suc i]"
  have "mset ?x = mset x" using mset_swap[OF j Suc.prems] by simp
  moreover have "mset (fst (shuffle_from i ?x g')) = mset ?x"
    by (rule Suc.IH) (use Suc.prems in simp)
  ultimately show ?case using r by simp
qed

lemma random_shuffle_mset: "mset (fst (random_shuffle x g)) = mset x"
proof (cases x)
  case Nil
  then show ?thesis by (simp add: random_shuffle_def)
next
  case (Cons a as)
  then show ?thesis unfolding random_shuffle_def by (intro shuffle_from_mset) simp
qed

lemma random_shuffle_length: "length (fst (random_shuffle x g)) = length x"
  using random_shuffle_mset[of x g] by (metis size_mset)

lemma random_shuffle_set: "set (fst (random_shuffle x g)) = set x"
  using random_shuffle_mset[of x g] by (metis set_mset_mset)

lemma first_index_Some:
  "\<exists>x \<in> set xs. p x \<Longrightarrow> \<exists>i. first_index p xs = Some i \<and> i < length xs \<and> p (xs ! i)"
proof (induction xs)
  case Nil then show ?case by simp
next
  case (Cons a xs)
  show ?case
  proof (cases "p a")
    case True then show ?thesis by simp
  next
    case False
    with Cons.prems have "\<exists>x \<in> set xs. p x" by simp
    from Cons.IH[OF this] obtain i where "first_index p xs = Some i" "i < length xs" "p (xs ! i)" by blast
    with False show ?thesis by simp
  qed
qed

lemma enumerate_entry:
  "(k, v) \<in> set (enumerate 0 xs) \<Longrightarrow> k < length xs \<and> v = xs ! k"
  by (auto simp: in_set_enumerate_eq)

lemma py_eq_int_value: "py_int_value v = Some c \<Longrightarrow> py_eq_int n v = (n = c)"
  by (cases v) (auto split: if_splits)

lemma shuffle_question_correct:
  assumes opts: "map_of q ''options'' = Some (JList opts)"
    and ai: "map_of q ''answer_index'' = Some ai"
    and c: "py_int_value ai = Some c" "0 \<le> c" "c < int (length opts)"
  shows "\<exists>q' g' opts' c' f.
      shuffle_question q g = Inr (q', g')
      \<and> q' = AList.update ''answer_index'' (JInt (int c')) (AList.update ''options'' (JList opts') q)
      \<and> mset opts' = mset opts
      \<and> c' < length opts
      \<and> opts' ! c' = opts ! nat c
      \<and> bij_betw f {..<length opts} {..<length opts}
      \<and> (\<forall>j < length opts. opts' ! j = opts ! f j)
      \<and> f c' = nat c"
proof -
  obtain indexed g' where sh: "random_shuffle (enumerate 0 opts) g = (indexed, g')"
    by (cases "random_shuffle (enumerate 0 opts) g")
  have ms: "mset indexed = mset (enumerate 0 opts)"
    using random_shuffle_mset[of "enumerate 0 opts" g] sh by simp
  then have st: "set indexed = set (enumerate 0 opts)" by (metis set_mset_mset)
  have len: "length indexed = length opts" using ms by (metis size_mset length_enumerate)
  have "mset (map fst indexed) = mset (map fst (enumerate 0 opts))" using ms by (metis mset_map)
  then have mf: "mset (map fst indexed) = mset [0..<length opts]" by simp
  have dist: "distinct (map fst indexed)" using mf by (metis distinct_upt mset_eq_imp_distinct_iff)
  have sf: "set (map fst indexed) = {..<length opts}" using mf by (metis mset_eq_setD set_upt atLeast_upt) 
  let ?f = "\<lambda>j. map fst indexed ! j"
  have bij: "bij_betw ?f {..<length opts} {..<length opts}"
    using bij_betw_nth[OF dist, of "{..<length opts}" "{..<length opts}"] len sf by simp
  have entry: "\<And>j. j < length opts \<Longrightarrow> snd (indexed ! j) = opts ! fst (indexed ! j)"
  proof -
    fix j assume "j < length opts"
    then have "indexed ! j \<in> set (enumerate 0 opts)" using st len by (metis nth_mem)
    then show "snd (indexed ! j) = opts ! fst (indexed ! j)"
      using enumerate_entry[of "fst (indexed ! j)" "snd (indexed ! j)" opts] by simp
  qed
  define p where "p = (\<lambda>(old_idx :: nat, _ :: json). py_eq_int (int old_idx) ai)"
  have "(nat c, opts ! nat c) \<in> set (enumerate 0 opts)"
    using c by (simp add: in_set_enumerate_eq)
  then have mem: "(nat c, opts ! nat c) \<in> set indexed" by (simp only: st)
  have pm: "p (nat c, opts ! nat c)" using c(2) by (simp add: p_def py_eq_int_value[OF c(1)])
  have "\<exists>x \<in> set indexed. p x"
    by (rule bexI[where P = p and x = "(nat c, opts ! nat c)", OF pm mem])
  from first_index_Some[OF this] obtain c' where
    fi: "first_index p indexed = Some c'" and c'l: "c' < length indexed" and pc: "p (indexed ! c')" by blast
  have fc: "fst (indexed ! c') = nat c"
    using pc c(2) by (cases "indexed ! c'") (simp add: p_def py_eq_int_value[OF c(1)])
  let ?opts' = "map snd indexed"
  have "shuffle_question q g = Inr (AList.update ''answer_index'' (JInt (int c')) (AList.update ''options'' (JList ?opts') q), g')"
    using opts ai sh fi by (simp add: shuffle_question_def getitem_def p_def)
  moreover have "mset ?opts' = mset opts"
  proof -
    have "mset (map snd indexed) = mset (map snd (enumerate 0 opts))" using ms by (metis mset_map)
    then show ?thesis by simp
  qed
  moreover have "c' < length opts" using c'l len by simp
  moreover have "?opts' ! c' = opts ! nat c" using entry[of c'] c'l len fc by simp
  moreover have "\<forall>j < length opts. ?opts' ! j = opts ! ?f j" using entry len by simp
  moreover have "?f c' = nat c" using fc c'l by simp
  ultimately show ?thesis using bij by blast
qed

section \<open>The loader\<close>

lemma map_of_keys: "(map_of q k \<noteq> None) = (k \<in> keys q)"
  by (simp add: keys_def map_of_eq_None_iff)

lemma check_fields_valid: "(check_fields q = Inr ()) = valid_question q"
  by (auto simp: check_fields_def valid_question_def getitem_def is_list_of_four_def
      is_int_in_range_def correct_index_def not_less
      split: option.splits json.splits)

lemma check_fields_violation:
  "\<not> valid_question q \<Longrightarrow> check_fields q = Inl (ValueError (violation q))"
  by (auto simp: check_fields_def valid_question_def violation_def getitem_def
      is_list_of_four_def is_int_in_range_def correct_index_def not_less required_def
      map_of_keys[symmetric]
      split: option.splits json.splits)

lemma check_question_valid: "(check_question v = Inr ()) = valid_entry v"
  by (cases v) (simp_all add: check_question_def valid_entry_def check_fields_valid)

lemma check_question_failure:
  "\<not> valid_entry v \<Longrightarrow> check_question v = Inl (failure v)"
  by (cases v) (simp_all add: check_question_def valid_entry_def failure_def check_fields_violation)

lemma check_questions_valid:
  "(check_questions qs = Inr ()) = (\<forall>q \<in> set qs. valid_entry q)"
proof (induction qs)
  case Nil then show ?case by simp
next
  case (Cons q qs)
  then show ?case
    using check_question_valid[of q] by (cases "check_question q") auto
qed

lemma check_questions_first_failure:
  assumes "\<forall>q \<in> set pre. valid_entry q" "\<not> valid_entry q"
  shows "check_questions (pre @ q # post) = Inl (failure q)"
  using assms(1)
proof (induction pre)
  case Nil
  then show ?case using check_question_failure[OF assms(2)] by simp
next
  case (Cons p pre)
  then have "check_question p = Inr ()" by (simp add: check_question_valid)
  with Cons show ?case by simp
qed

lemma load_questions_document:
  "(load_questions (Document data) = Inr bank) =
     (bank = data \<and> (\<exists>qs. py_iter data = Some qs \<and> (\<forall>q \<in> set qs. valid_entry q)))"
proof (cases "py_iter data")
  case None
  then show ?thesis by (simp add: load_questions_def)
next
  case (Some qs)
  show ?thesis
  proof (cases "check_questions qs")
    case (Inl e)
    moreover from Inl have "\<not> (\<forall>q \<in> set qs. valid_entry q)"
      using check_questions_valid[of qs] by auto
    ultimately show ?thesis using Some by (auto simp: load_questions_def)
  next
    case (Inr u)
    moreover from Inr have "\<forall>q \<in> set qs. valid_entry q"
      using check_questions_valid[of qs] by simp
    ultimately show ?thesis using Some by (auto simp: load_questions_def)
  qed
qed

lemma load_questions_ok:
  "(load_questions file = Inr (JList bank)) =
     (file = Document (JList bank) \<and> (\<forall>q \<in> set bank. valid_entry q))"
proof (cases "file")
  case Absent then show ?thesis by (simp add: load_questions_def)
next
  case Not_json then show ?thesis by (simp add: load_questions_def)
next
  case (Document data)
  show ?thesis unfolding Document load_questions_document by auto
qed

lemma load_questions_cases:
  assumes "load_questions file = Inr loaded"
  shows "(\<exists>bank. loaded = JList bank) \<or> loaded = JStr [] \<or> loaded = JObj []"
proof -
  from assms obtain data where f: "file = Document data"
    by (cases "file") (simp_all add: load_questions_def)
  from assms[unfolded f load_questions_document] obtain qs where
    l: "loaded = data" "py_iter data = Some qs" "\<forall>q \<in> set qs. valid_entry q" by blast
  show ?thesis
  proof (cases data)
    case (JStr t)
    have "t = []"
    proof (cases t)
      case (Cons c cs)
      with JStr l(2,3) have "valid_entry (JStr [c])" by auto
      then show ?thesis by (simp add: valid_entry_def)
    qed simp
    with JStr l(1) show ?thesis by simp
  next
    case (JObj kvs)
    have "kvs = []"
    proof (cases kvs)
      case (Cons kv rest)
      with JObj l(2,3) have "valid_entry (JStr (fst kv))" by auto
      then show ?thesis by (simp add: valid_entry_def)
    qed simp
    with JObj l(1) show ?thesis by simp
  qed (use l in simp_all)
qed

section \<open>Building a session\<close>

lemma in_keys: "(k \<in> keys q) = (\<exists>v. map_of q k = Some v)"
  using map_of_keys[of q k] by auto

lemma valid_question_fields:
  assumes "valid_question q"
  obtains opts ai c where "map_of q ''options'' = Some (JList opts)" "length opts = 4"
    "map_of q ''answer_index'' = Some ai" "py_int_value ai = Some c" "0 \<le> c" "c \<le> 3"
    "map_of q ''id'' \<noteq> None" "map_of q ''question'' \<noteq> None" "map_of q ''explanation'' \<noteq> None"
proof -
  from assms have k: "set required \<subseteq> keys q" by (simp add: valid_question_def)
  then have f: "map_of q ''id'' \<noteq> None" "map_of q ''question'' \<noteq> None" "map_of q ''explanation'' \<noteq> None"
    by (simp_all add: required_def in_keys)
  from assms obtain opts where o: "map_of q ''options'' = Some (JList opts)" "length opts = 4"
    by (auto simp: valid_question_def split: option.splits json.splits)
  from assms obtain ai c where a: "map_of q ''answer_index'' = Some ai" "py_int_value ai = Some c" "0 \<le> c" "c \<le> 3"
    by (auto simp: valid_question_def correct_index_def split: option.splits)
  from o a f show ?thesis by (rule that)
qed

lemma shuffle_question_prepared:
  assumes "valid_question q"
  shows "\<exists>q' g'. shuffle_question q g = Inr (q', g') \<and> prepared_question q'"
proof -
  from assms obtain opts ai c where f: "map_of q ''options'' = Some (JList opts)" "length opts = 4"
    "map_of q ''answer_index'' = Some ai" "py_int_value ai = Some c" "0 \<le> c" "c \<le> 3"
    "map_of q ''id'' \<noteq> None" "map_of q ''question'' \<noteq> None" "map_of q ''explanation'' \<noteq> None"
    by (rule valid_question_fields)
  have "c < int (length opts)" using f(2,6) by simp
  from shuffle_question_correct[OF f(1,3,4,5) this, of g] obtain q' g' opts' c' where
    r: "shuffle_question q g = Inr (q', g')"
    "q' = AList.update ''answer_index'' (JInt (int c')) (AList.update ''options'' (JList opts') q)"
    "c' < length opts" by blast
  have "prepared_question q'"
    using f(2,7,8,9) r(3) by (simp add: r(2) prepared_question_def correct_index_def update_conv')
  with r(1) show ?thesis by blast
qed

lemma shuffle_questions_prepared:
  assumes "\<forall>q \<in> set qs. valid_entry q"
  shows "\<exists>qs' g'. shuffle_questions qs g = Inr (qs', g') \<and> length qs' = length qs
           \<and> (\<forall>q \<in> set qs'. prepared_question q)"
  using assms
proof (induction qs arbitrary: g)
  case Nil then show ?case by simp
next
  case (Cons q qs)
  from Cons.prems have "valid_entry q" by simp
  then obtain d where d: "q = JObj d" "valid_question d"
    by (cases q) (simp_all add: valid_entry_def)
  from shuffle_question_prepared[OF d(2), of g] obtain d' g1 where
    d': "shuffle_question d g = Inr (d', g1)" "prepared_question d'" by blast
  from Cons.prems have "\<forall>q \<in> set qs. valid_entry q" by simp
  from Cons.IH[OF this, of g1] obtain qs' g2 where
    qs': "shuffle_questions qs g1 = Inr (qs', g2)" "length qs' = length qs"
    "\<forall>q \<in> set qs'. prepared_question q" by blast
  from d(1) d' qs' show ?case by simp
qed

lemma build_quiz_session_ok:
  assumes "load_questions file = Inr (JList bank)"
  shows "\<exists>prepared g'. build_quiz_session a file now g s =
            Inr (s\<lparr>quiz := Some (fresh_quiz prepared now), score_saved := Some False\<rparr>, g')
          \<and> length prepared = min (nat (max 1 (min a (int (length bank))))) (length bank)
          \<and> (\<forall>q \<in> set prepared. prepared_question q)"
proof -
  from assms have valid: "\<forall>q \<in> set bank. valid_entry q" by (simp add: load_questions_ok)
  obtain qs g1 where sh: "random_shuffle bank g = (qs, g1)" by (cases "random_shuffle bank g")
  have len: "length qs = length bank" using random_shuffle_length[of bank g] sh by simp
  have st: "set qs = set bank" using random_shuffle_set[of bank g] sh by simp
  let ?n = "nat (max 1 (min a (int (length qs))))"
  have "\<forall>q \<in> set (take ?n qs). valid_entry q"
    using valid st by (metis in_set_takeD)
  from shuffle_questions_prepared[OF this, of g1] obtain prepared g2 where
    p: "shuffle_questions (take ?n qs) g1 = Inr (prepared, g2)"
    "length prepared = length (take ?n qs)" "\<forall>q \<in> set prepared. prepared_question q" by blast
  have "build_quiz_session a file now g s =
      Inr (s\<lparr>quiz := Some (fresh_quiz prepared now), score_saved := Some False\<rparr>, g2)"
    using assms sh p(1) by (simp add: build_quiz_session_def fresh_quiz_def Let_def)
  moreover have "length prepared = min (nat (max 1 (min a (int (length bank))))) (length bank)"
    using p(2) len by (simp add: min.commute)
  ultimately show ?thesis using p(3) by blast
qed

lemma build_quiz_session_prepared:
  assumes "build_quiz_session a file now g s = Inr (s0, g')"
  shows "\<exists>prepared. s0 = s\<lparr>quiz := Some (fresh_quiz prepared now), score_saved := Some False\<rparr>
           \<and> (\<forall>q \<in> set prepared. prepared_question q)"
proof -
  from assms obtain loaded where l: "load_questions file = Inr loaded"
    by (cases "load_questions file") (simp_all add: build_quiz_session_def)
  from load_questions_cases[OF l]
  consider bank where "loaded = JList bank" | "loaded = JStr []" | "loaded = JObj []" by blast
  then show ?thesis
  proof cases
    case 1
    from build_quiz_session_ok[OF l[unfolded 1], of a now g s] assms show ?thesis by auto
  next
    case 2
    with assms l have "s0 = s\<lparr>quiz := Some (fresh_quiz [] now), score_saved := Some False\<rparr>"
      by (simp add: build_quiz_session_def fresh_quiz_def)
    then show ?thesis by (intro exI[of _ "[]"]) simp
  next
    case 3
    with assms l show ?thesis by (simp add: build_quiz_session_def)
  qed
qed

section \<open>Answering\<close>

lemma answer_invalid:
  assumes "quiz s = Some qs" and "idx qs < int (length (questions qs))"
    and "normalized choice \<notin> {''A'', ''B'', ''C'', ''D''}"
  shows "answer choice s = Inr (Redirect ''quiz'', flash Invalid_choice Error_msg s)"
  using assms by (simp add: answer_def current_quiz_def normalized_def letters_def Let_def)

lemma answer_terminal:
  assumes "quiz s = Some qs" and "int (length (questions qs)) \<le> idx qs"
  shows "answer choice s = Inr (Redirect ''result'', s)"
  using assms by (simp add: answer_def current_quiz_def Let_def)

lemma py_index_letters:
  assumes "py_int_value ai = Some c" "0 \<le> c" "c \<le> 3"
  shows "py_index letters ai = Inr (letters ! nat c)"
  using assms by (simp add: py_index_def py_nth_def letters_def)

lemma letters_nth_eq:
  assumes "0 \<le> c" "c \<le> 3"
  shows "(x = letters ! nat c) = (letter_index x = Some c)"
proof -
  from assms have "c = 0 \<or> c = 1 \<or> c = 2 \<or> c = 3" by arith
  then show ?thesis by (auto simp: letters_def letter_index_def)
qed

lemma answer_valid:
  assumes q: "quiz s = Some qs"
    and lo: "0 \<le> idx qs" and hi: "idx qs < int (length (questions qs))"
    and ch: "normalized choice \<in> {''A'', ''B'', ''C'', ''D''}"
    and wf: "prepared_question (questions qs ! nat (idx qs))"
  shows "answer choice s = Inr (Redirect ''quiz'', s\<lparr>quiz := Some (answered qs (normalized choice))\<rparr>)"
proof -
  let ?q = "questions qs ! nat (idx qs)"
  from wf obtain ai c where ai: "map_of ?q ''answer_index'' = Some ai"
    and c: "py_int_value ai = Some c" "0 \<le> c" "c \<le> 3"
    by (auto simp: prepared_question_def correct_index_def split: option.splits)
  from wf obtain qid qtext expl where f: "map_of ?q ''id'' = Some qid"
    "map_of ?q ''question'' = Some qtext" "map_of ?q ''explanation'' = Some expl"
    by (auto simp: prepared_question_def)
  have ci: "correct_index ?q = Some c" using ai c(1) by (simp add: correct_index_def)
  have nth: "py_nth (questions qs) (idx qs) = Inr ?q"
    using lo hi by (simp add: py_nth_def)
  have ch': "normalized choice \<in> set letters" using ch by (simp add: letters_def)
  have eq: "(normalized choice = letters ! nat c) = (letter_index (normalized choice) = Some c)"
    by (rule letters_nth_eq[OF c(2,3)])
  have "answer choice s = Inr (Redirect ''quiz'', s\<lparr>quiz := Some
     ((if normalized choice = letters ! nat c then qs\<lparr>score := score qs + 1\<rparr> else qs)
       \<lparr>answers := answers qs @ [\<lparr>id_rec = qid, question = qtext,
                 chosen = normalized choice, correct = letters ! nat c,
                 is_correct = (normalized choice = letters ! nat c),
                 explanation = expl\<rparr>], idx := idx qs + 1\<rparr>)\<rparr>)"
    using q hi ch' nth ai f py_index_letters[OF c]
    by (simp add: answer_def current_quiz_def normalized_def[symmetric] getitem_def Let_def)
  also have "\<dots> = Inr (Redirect ''quiz'', s\<lparr>quiz := Some (answered qs (normalized choice))\<rparr>)"
    unfolding eq using ci f by (simp add: answered_def Let_def)
  finally show ?thesis .
qed

lemma answer_keeps_well_formed:
  assumes "well_formed s"
  shows "\<exists>r s'. answer choice s = Inr (r, s') \<and> well_formed s'"
proof -
  from assms obtain qs where q: "quiz s = Some qs"
    by (auto simp: well_formed_def session_invariant_def split: option.splits)
  from assms q have inv: "0 \<le> idx qs" "idx qs \<le> int (length (questions qs))"
    "int (length (answers qs)) = idx qs" "score qs = int (length (filter is_correct (answers qs)))"
    and prep: "\<forall>q \<in> set (questions qs). prepared_question q"
    by (simp_all add: well_formed_def session_invariant_def)
  show ?thesis
  proof (cases "idx qs < int (length (questions qs))")
    case False
    then have "int (length (questions qs)) \<le> idx qs" by arith
    with q have "answer choice s = Inr (Redirect ''result'', s)"
      by (rule answer_terminal)
    with assms show ?thesis by blast
  next
    case True
    show ?thesis
    proof (cases "normalized choice \<in> {''A'', ''B'', ''C'', ''D''}")
      case False
      then have "answer choice s = Inr (Redirect ''quiz'', flash Invalid_choice Error_msg s)"
        using q True by (intro answer_invalid)
      moreover have "well_formed (flash Invalid_choice Error_msg s)"
        using assms by (simp add: well_formed_def session_invariant_def flash_def)
      ultimately show ?thesis by blast
    next
      case ch: True
      have "nat (idx qs) < length (questions qs)" using True inv(1) by simp
      then have "prepared_question (questions qs ! nat (idx qs))" using prep by simp
      from answer_valid[OF q inv(1) True ch this]
      have a: "answer choice s = Inr (Redirect ''quiz'', s\<lparr>quiz := Some (answered qs (normalized choice))\<rparr>)" .
      have "well_formed (s\<lparr>quiz := Some (answered qs (normalized choice))\<rparr>)"
        using inv True prep by (simp add: well_formed_def session_invariant_def answered_def Let_def)
      with a show ?thesis by blast
    qed
  qed
qed

lemma answer_all_well_formed:
  "well_formed s \<Longrightarrow> \<exists>s'. answer_all cs s = Inr s' \<and> well_formed s'"
proof (induction cs arbitrary: s)
  case Nil then show ?case by simp
next
  case (Cons c cs)
  from answer_keeps_well_formed[OF Cons.prems, of c] obtain r s1 where
    a: "answer c s = Inr (r, s1)" "well_formed s1" by blast
  from Cons.IH[OF a(2)] obtain s' where "answer_all cs s1 = Inr s'" "well_formed s'" by blast
  with a(1) show ?case by simp
qed

lemma build_quiz_session_well_formed:
  assumes "build_quiz_session a file now g s = Inr (s0, g')"
  shows "well_formed s0"
proof -
  from build_quiz_session_prepared[OF assms] obtain prepared where
    "s0 = s\<lparr>quiz := Some (fresh_quiz prepared now), score_saved := Some False\<rparr>"
    "\<forall>q \<in> set prepared. prepared_question q" by blast
  then show ?thesis by (simp add: well_formed_def session_invariant_def fresh_quiz_def)
qed

section \<open>The result view\<close>

lemma percent_of_returns:
  assumes "0 \<le> sc" "sc \<le> int n"
  shows "\<exists>p. percent_of sc (int n) = Inr p"
proof (cases "n = 0")
  case True then show ?thesis by (simp add: percent_of_def)
next
  case False
  then have t: "0 < int n" by simp
  have "(1::int) * sc \<le> 2 ^ 1000 * int n" using assms by (intro mult_mono) simp_all
  then have "\<bar>sc\<bar> \<le> 2 ^ 1000 * int n" using assms(1) by simp
  from py_truediv_returns[OF t this] show ?thesis using False by (simp add: percent_of_def)
qed

lemma grade_rank_returns:
  assumes "0 \<le> sc" "sc \<le> int n"
  shows "\<exists>r. grade_rank sc (int n) = Inr r"
proof (cases "n = 0")
  case True then show ?thesis by (simp add: grade_rank_def)
next
  case False
  then have t: "0 < int n" by simp
  have "(1::int) * sc \<le> 2 ^ 1000 * int n" using assms by (intro mult_mono) simp_all
  then have "\<bar>sc\<bar> \<le> 2 ^ 1000 * int n" using assms(1) by simp
  from py_truediv_returns[OF t this] show ?thesis using False by (simp add: grade_rank_def)
qed

lemma result_no_quiz:
  "quiz s = None \<Longrightarrow>
   result now s db = Inr (Redirect ''index'', flash No_active_quiz_start_new Warning_msg s, db)"
  by (simp add: result_def current_quiz_def)

lemma result_saved:
  assumes "quiz s = Some qs" "0 \<le> score qs" "score qs \<le> int (length (questions qs))"
    "score_saved s = Some True"
  shows "\<exists>page. result now s db = Inr (page, s, db)"
proof -
  from percent_of_returns[OF assms(2,3)] obtain p where
    p: "percent_of (score qs) (int (length (questions qs))) = Inr p" ..
  from grade_rank_returns[OF assms(2,3)] obtain r where
    r: "grade_rank (score qs) (int (length (questions qs))) = Inr r" ..
  show ?thesis using assms(1,4) p r by (simp add: result_def current_quiz_def Let_def)
qed

lemma result_unsaved:
  assumes "quiz s = Some qs" "0 \<le> score qs" "score qs \<le> int (length (questions qs))"
    "score_saved s \<noteq> Some True"
  shows "\<exists>page row. result now s db = Inr (page, s\<lparr>score_saved := Some True\<rparr>, db @ [row])
           \<and> score_col row = score qs \<and> total_col row = int (length (questions qs))"
proof -
  from percent_of_returns[OF assms(2,3)] obtain p where
    p: "percent_of (score qs) (int (length (questions qs))) = Inr p" ..
  from grade_rank_returns[OF assms(2,3)] obtain r where
    r: "grade_rank (score qs) (int (length (questions qs))) = Inr r" ..
  show ?thesis using assms(1,4) p r by (simp add: result_def current_quiz_def Let_def)
qed

lemma view_results_saved:
  assumes "score_in_range s" "quiz s \<noteq> None" "score_saved s = Some True"
  shows "view_results nows s db = Inr (s, db)"
proof (induction nows)
  case Nil then show ?case by simp
next
  case (Cons now nows)
  from assms obtain qs where q: "quiz s = Some qs" "0 \<le> score qs" "score qs \<le> int (length (questions qs))"
    by (auto simp: score_in_range_def)
  from result_saved[OF q assms(3), of now db] Cons.IH show ?case by auto
qed

lemma view_results_no_quiz:
  "quiz s = None \<Longrightarrow> \<exists>s'. view_results nows s db = Inr (s', db) \<and> score_saved s' = score_saved s"
proof (induction nows arbitrary: s)
  case Nil then show ?case by simp
next
  case (Cons now nows)
  have "quiz (flash No_active_quiz_start_new Warning_msg s) = None"
    using Cons.prems by (simp add: flash_def)
  from Cons.IH[OF this] show ?case using Cons.prems by (simp add: result_no_quiz flash_def)
qed

lemma view_results_unsaved:
  assumes "score_in_range s" "quiz s \<noteq> None" "score_saved s \<noteq> Some True"
  shows "\<exists>row. view_results (now # nows) s db = Inr (s\<lparr>score_saved := Some True\<rparr>, db @ [row])"
proof -
  from assms obtain qs where q: "quiz s = Some qs" "0 \<le> score qs" "score qs \<le> int (length (questions qs))"
    by (auto simp: score_in_range_def)
  from result_unsaved[OF q assms(3), of now db] obtain page row where
    r: "result now s db = Inr (page, s\<lparr>score_saved := Some True\<rparr>, db @ [row])" by blast
  have "view_results nows (s\<lparr>score_saved := Some True\<rparr>) (db @ [row])
      = Inr (s\<lparr>score_saved := Some True\<rparr>, db @ [row])"
    by (rule view_results_saved) (use assms in \<open>simp_all add: score_in_range_def\<close>)
  with r show ?thesis by auto
qed

section \<open>Starting a quiz\<close>

lemma question_count_loaded:
  "load_questions file = Inr (JList bank) \<Longrightarrow> question_count file = int (length bank)"
  by (simp add: question_count_def)

lemma clamp_int_range: "lo \<le> hi \<Longrightarrow> lo \<le> d \<Longrightarrow> d \<le> hi \<Longrightarrow> lo \<le> clamp_int v d lo hi \<and> clamp_int v d lo hi \<le> hi"
  by (auto simp: clamp_int_def split: option.splits)

lemma start_ok:
  assumes l: "load_questions file = Inr (JList bank)" and ne: "bank \<noteq> []"
  shows "\<exists>s1 prepared g'.
      start name_field amount_field file now g s =
        Inr (Redirect ''quiz'', s1\<lparr>quiz := Some (fresh_quiz prepared now), score_saved := Some False\<rparr>, g')
      \<and> amount s1 = Some (clamp_int (case amount_field of None \<Rightarrow> [] | Some a \<Rightarrow> a)
                            (min 10 (int (length bank))) 1 (int (length bank)))
      \<and> int (length prepared) = clamp_int (case amount_field of None \<Rightarrow> [] | Some a \<Rightarrow> a)
                            (min 10 (int (length bank))) 1 (int (length bank))
      \<and> (\<forall>q \<in> set prepared. prepared_question q)"
proof -
  let ?n = "int (length bank)"
  let ?raw = "case amount_field of None \<Rightarrow> [] | Some a \<Rightarrow> a"
  let ?req = "clamp_int ?raw (min 10 ?n) 1 ?n"
  have n: "1 \<le> ?n" using ne by (cases bank) simp_all
  have qc: "question_count file = ?n" by (rule question_count_loaded[OF l])
  have rng: "1 \<le> ?req \<and> ?req \<le> ?n" by (rule clamp_int_range) (use n in simp_all)
  define stripped where "stripped = strip (case name_field of None \<Rightarrow> [] | Some n \<Rightarrow> n)"
  define s1 where "s1 = (case py_int ?raw of
                       Some raw_int \<Rightarrow> if raw_int > ?n then flash (Amount_adjusted ?n) Warning_msg s else s
                     | None \<Rightarrow> s)"
  define s2 where "s2 = s1\<lparr>player_name := Some (if stripped = [] then ''Player'' else stripped), amount := Some ?req\<rparr>"
  from build_quiz_session_ok[OF l, of ?req now g s2] obtain prepared g' where
    b: "build_quiz_session ?req file now g s2 =
            Inr (s2\<lparr>quiz := Some (fresh_quiz prepared now), score_saved := Some False\<rparr>, g')"
       "length prepared = min (nat (max 1 (min ?req ?n))) (length bank)"
       "\<forall>q \<in> set prepared. prepared_question q" by blast
  have "start name_field amount_field file now g s =
      Inr (Redirect ''quiz'', s2\<lparr>quiz := Some (fresh_quiz prepared now), score_saved := Some False\<rparr>, g')"
    using n ne b(1) unfolding s2_def s1_def stripped_def by (simp add: start_def qc Let_def)
  moreover have "amount s2 = Some ?req" by (simp add: s2_def)
  moreover have "int (length prepared) = ?req"
  proof -
    have "nat ?req \<le> length bank" using rng by (simp add: nat_le_iff)
    then have "length prepared = nat ?req" using rng b(2) by (simp add: min_absorb1)
    then show ?thesis using rng by simp
  qed
  ultimately show ?thesis using b(3) by blast
qed

section \<open>The claims\<close>

lemma sample_bank_loads:
  "load_questions sample_file = Inr (JList [JObj sample_q1, JObj sample_q2])"
  by code_simp

lemma sample_prepared: "prepared_question sample_q1" "prepared_question sample_q2"
  by code_simp+

lemma sample_session_quiz:
  "quiz sample_session = Some \<lparr>questions = [sample_q1, sample_q2], idx = 0, score = 0,
     answers = [], started_at = ''t0''\<rparr>"
  by (simp add: sample_session_def)

text \<open>
  Claim C1. In a session that is not terminal (\<open>0 \<le> idx < length questions\<close>) whose
  current question is a prepared one, a choice that normalises to one of A, B, C, D makes
  \<^verbatim>\<open>answer\<close> advance \<open>idx\<close> by exactly 1 and append exactly one answer record; the
  score grows by 1 if and only if the letter's index (A=0, B=1, C=2, D=3) is the current
  question's answer_index, and stays as it is otherwise.
\<close>

theorem answer_valid_letter:
  assumes "quiz s = Some qs"
    and "0 \<le> idx qs" and "idx qs < int (length (questions qs))"
    and "normalized choice \<in> {''A'', ''B'', ''C'', ''D''}"
    and "prepared_question (questions qs ! nat (idx qs))"
  shows "\<exists>qs' r. answer choice s = Inr (Redirect ''quiz'', s\<lparr>quiz := Some qs'\<rparr>)
      \<and> idx qs' = idx qs + 1
      \<and> answers qs' = answers qs @ [r]
      \<and> chosen r = normalized choice
      \<and> is_correct r =
          (letter_index (normalized choice) = correct_index (questions qs ! nat (idx qs)))
      \<and> score qs' =
          (if letter_index (normalized choice) = correct_index (questions qs ! nat (idx qs))
           then score qs + 1 else score qs)
      \<and> questions qs' = questions qs"
proof -
  let ?qs' = "answered qs (normalized choice)"
  have "answer choice s = Inr (Redirect ''quiz'', s\<lparr>quiz := Some ?qs'\<rparr>)"
    using assms by (rule answer_valid)
  then show ?thesis
    by (intro exI[of _ ?qs'] exI[of _ "last (answers ?qs')"]) (simp add: answered_def Let_def)
qed

theorem answer_valid_letter_witness:
  "normalized (Some '' c '') \<in> {''A'', ''B'', ''C'', ''D''}
   \<and> (\<exists>qs' r. answer (Some '' c '') sample_session =
          Inr (Redirect ''quiz'', sample_session\<lparr>quiz := Some qs'\<rparr>)
        \<and> idx qs' = 1 \<and> answers qs' = [r] \<and> chosen r = ''C'' \<and> is_correct r \<and> score qs' = 1)"
proof -
  have n: "normalized (Some '' c '') = ''C''" by code_simp
  have h: "normalized (Some '' c '') \<in> {''A'', ''B'', ''C'', ''D''}" by (simp add: n)
  have c: "letter_index ''C'' = correct_index sample_q1" by code_simp
  show ?thesis
    using h answer_valid_letter[OF sample_session_quiz _ _ h, simplified, OF sample_prepared(1)]
    by (simp add: n c, blast)
qed

text \<open>
  Claim C5. In a session that is not terminal, a choice that does not normalise to one of
  A, B, C, D leaves the quiz as it was: \<^verbatim>\<open>answer\<close> redirects to the same question, and the
  position, the score, the answer log, the questions and the persisted flag are unchanged
  (the whole \<open>quiz\<close> value is the same). The only thing the request adds to the visitor's
  session is the error message queued by \<^verbatim>\<open>flash\<close>.
\<close>

theorem answer_invalid_letter:
  assumes "quiz s = Some qs"
    and "idx qs < int (length (questions qs))"
    and "normalized choice \<notin> {''A'', ''B'', ''C'', ''D''}"
  shows "\<exists>s'. answer choice s = Inr (Redirect ''quiz'', s')
      \<and> quiz s' = quiz s
      \<and> score_saved s' = score_saved s
      \<and> player_name s' = player_name s
      \<and> amount s' = amount s
      \<and> flashes s' = flashes s @ [(Invalid_choice, Error_msg)]"
proof -
  have "answer choice s = Inr (Redirect ''quiz'', flash Invalid_choice Error_msg s)"
    using assms by (rule answer_invalid)
  then show ?thesis by (simp add: flash_def)
qed

theorem answer_invalid_letter_witness:
  "normalized (Some ''E'') \<notin> {''A'', ''B'', ''C'', ''D''}
   \<and> (\<exists>s'. answer (Some ''E'') sample_session = Inr (Redirect ''quiz'', s')
        \<and> quiz s' = quiz sample_session
        \<and> flashes s' = [(Invalid_choice, Error_msg)])"
proof -
  have n: "normalized (Some ''E'') = ''E''" by code_simp
  have h: "normalized (Some ''E'') \<notin> {''A'', ''B'', ''C'', ''D''}" by (simp add: n)
  have f: "flashes sample_session = []" by (simp add: sample_session_def)
  show ?thesis
    using h answer_invalid_letter[OF sample_session_quiz _ h, simplified]
    by (simp add: f, blast)
qed

text \<open>
  Claim C2. For a question with 4 options and an answer_index in 0..3, \<^verbatim>\<open>shuffle_question\<close>
  returns (for every state of the random source) a copy whose option list is a permutation
  of the original one (same multiset), whose new answer_index is in 0..3 and points at the
  text of the original correct option, and the map from new positions to original
  positions is a bijection on {0,1,2,3}; the other fields are copied.
\<close>

theorem shuffle_question_permutation:
  assumes "map_of q ''options'' = Some (JList opts)"
    and "length opts = 4"
    and "correct_index q = Some c"
    and "0 \<le> c" and "c \<le> 3"
  shows "\<exists>q' g' opts' c' f.
      shuffle_question q g = Inr (q', g')
      \<and> map_of q' ''options'' = Some (JList opts')
      \<and> correct_index q' = Some (int c')
      \<and> mset opts' = mset opts
      \<and> c' < 4
      \<and> opts' ! c' = opts ! nat c
      \<and> bij_betw f {..<4} {..<4}
      \<and> (\<forall>j < 4. opts' ! j = opts ! f j)
      \<and> f c' = nat c
      \<and> (\<forall>k. k \<noteq> ''options'' \<and> k \<noteq> ''answer_index'' \<longrightarrow> map_of q' k = map_of q k)"
proof -
  from assms(3) obtain ai where ai: "map_of q ''answer_index'' = Some ai" "py_int_value ai = Some c"
    by (auto simp: correct_index_def split: option.splits)
  have "c < int (length opts)" using assms(2,5) by simp
  from shuffle_question_correct[OF assms(1) ai assms(4) this, of g]
  obtain q' g' opts' c' f where r: "shuffle_question q g = Inr (q', g')"
    "q' = AList.update ''answer_index'' (JInt (int c')) (AList.update ''options'' (JList opts') q)"
    "mset opts' = mset opts" "c' < length opts" "opts' ! c' = opts ! nat c"
    "bij_betw f {..<length opts} {..<length opts}" "\<forall>j < length opts. opts' ! j = opts ! f j"
    "f c' = nat c" by blast
  have "map_of q' ''options'' = Some (JList opts')"
    and "correct_index q' = Some (int c')"
    and "\<forall>k. k \<noteq> ''options'' \<and> k \<noteq> ''answer_index'' \<longrightarrow> map_of q' k = map_of q k"
    by (simp_all add: r(2) correct_index_def update_conv')
  with r(1,3-8) assms(2) show ?thesis by auto
qed

theorem shuffle_question_permutation_witness:
  "map_of sample_q1 ''options'' = Some (JList [JStr ''a'', JStr ''b'', JStr ''c'', JStr ''d''])
   \<and> correct_index sample_q1 = Some 2
   \<and> (\<exists>q' g' opts' c'.
        shuffle_question sample_q1 (\<lambda>k. k + 1) = Inr (q', g')
        \<and> map_of q' ''options'' = Some (JList opts')
        \<and> correct_index q' = Some (int c')
        \<and> mset opts' = mset [JStr ''a'', JStr ''b'', JStr ''c'', JStr ''d'']
        \<and> opts' ! c' = JStr ''c'')"
proof -
  have o: "map_of sample_q1 ''options'' = Some (JList [JStr ''a'', JStr ''b'', JStr ''c'', JStr ''d''])"
    by (simp add: sample_q1_def)
  have c: "correct_index sample_q1 = Some 2" by (simp add: sample_q1_def correct_index_def)
  from shuffle_question_permutation[OF o _ c, of "\<lambda>k. k + 1"]
  obtain q' g' opts' c' where "shuffle_question sample_q1 (\<lambda>k. k + 1) = Inr (q', g')"
    "map_of q' ''options'' = Some (JList opts')" "correct_index q' = Some (int c')"
    "mset opts' = mset [JStr ''a'', JStr ''b'', JStr ''c'', JStr ''d'']"
    "opts' ! c' = [JStr ''a'', JStr ''b'', JStr ''c'', JStr ''d''] ! nat 2" by auto
  then show ?thesis using o c by (intro conjI exI[of _ q'] exI[of _ g'] exI[of _ opts'] exI[of _ c']) simp_all
qed

text \<open>
  Claim C3 says that \<^verbatim>\<open>load_questions\<close> fails with a ValueError for any entry that breaks
  one of the constraints, and returns the bank only when every answer_index is an integer
  from 0 to 3. On an entry that is not a JSON object the loop fails on \<^verbatim>\<open>q.keys()\<close>
  before any check, with an AttributeError; and an answer_index that is the JSON
  \<^verbatim>\<open>true\<close> passes \<^verbatim>\<open>isinstance(ai, int)\<close>, so the bank that holds it is returned.
\<close>

theorem load_questions_other_outcomes:
  "load_questions (Document (JList [JObj sample_q1, JList [JInt 1, JInt 2, JInt 3]]))
     = Inl AttributeError
   \<and> map_of sample_q3 ''answer_index'' = Some (JBool True)
   \<and> load_questions (Document (JList [JObj sample_q3])) = Inr (JList [JObj sample_q3])"
  by code_simp

text \<open>
  Claim C3, amended. \<^verbatim>\<open>load_questions\<close> fails with FileNotFoundError when the questions
  file is absent. When the file is a JSON array, it returns the whole array exactly when
  every entry is valid: a JSON object with all of id, question, options, answer_index,
  explanation, whose options are a list of exactly 4 and whose answer_index is a Python
  int (a JSON integer, or a JSON boolean, which counts as 1 or 0) from 0 to 3. Otherwise it
  fails at the first entry that is not valid: with the ValueError that names the violated
  constraint (the missing keys, "needs 4 options", or the invalid answer_index) when that
  entry is an object, and with an AttributeError when it is not an object. A document that
  cannot be iterated fails with a TypeError. Whatever is returned is the whole document,
  every entry of it valid: no part of a bank is ever returned.
\<close>

theorem load_questions_all_or_nothing:
  "load_questions Absent = Inl FileNotFoundError
   \<and> ((load_questions (Document (JList data)) = Inr bank) =
        (bank = JList data \<and> (\<forall>q \<in> set data. valid_entry q)))
   \<and> ((\<forall>p \<in> set pre. valid_entry p) \<and> \<not> valid_entry q \<longrightarrow>
        load_questions (Document (JList (pre @ q # post))) = Inl (failure q))
   \<and> (py_iter doc = None \<longrightarrow> load_questions (Document doc) = Inl TypeError)
   \<and> (load_questions file = Inr loaded \<longrightarrow>
        file = Document loaded
        \<and> ((\<exists>es. loaded = JList es \<and> (\<forall>q \<in> set es. valid_entry q))
            \<or> loaded = JStr [] \<or> loaded = JObj []))"
proof (intro conjI impI)
  show "load_questions Absent = Inl FileNotFoundError" by (simp add: load_questions_def)
  show "(load_questions (Document (JList data)) = Inr bank) =
        (bank = JList data \<and> (\<forall>q \<in> set data. valid_entry q))"
    by (simp add: load_questions_document)
  show "load_questions (Document (JList (pre @ q # post))) = Inl (failure q)"
    if "(\<forall>p \<in> set pre. valid_entry p) \<and> \<not> valid_entry q"
    using that by (simp add: load_questions_def check_questions_first_failure)
  show "load_questions (Document doc) = Inl TypeError" if "py_iter doc = None"
    using that by (simp add: load_questions_def)
  show "file = Document loaded" if "load_questions file = Inr loaded"
    using that load_questions_document[of _ loaded]
    by (cases "file") (simp_all add: load_questions_def[of Absent] load_questions_def[of Not_json])
  show "(\<exists>es. loaded = JList es \<and> (\<forall>q \<in> set es. valid_entry q))
        \<or> loaded = JStr [] \<or> loaded = JObj []" if l: "load_questions file = Inr loaded"
  proof -
    from load_questions_cases[OF l]
    consider es where "loaded = JList es" | "loaded = JStr []" | "loaded = JObj []" by blast
    then show ?thesis
    proof cases
      case 1
      with l have "\<forall>q \<in> set es. valid_entry q" by (simp add: load_questions_ok)
      with 1 show ?thesis by blast
    qed simp_all
  qed
qed

theorem load_questions_all_or_nothing_witness:
  "valid_entry (JObj sample_q1) \<and> valid_entry (JObj sample_q2)
   \<and> \<not> valid_entry (JObj (tl sample_q2)) \<and> \<not> valid_entry (JInt 7)
   \<and> py_iter (JInt 7) = None
   \<and> load_questions sample_file = Inr (JList [JObj sample_q1, JObj sample_q2])
   \<and> load_questions (Document (JList [JObj sample_q1, JObj (tl sample_q2), JObj sample_q2])) =
       Inl (ValueError (Missing_fields {''id''} (tl sample_q2)))
   \<and> load_questions (Document (JList [JObj sample_q1, JInt 7])) = Inl AttributeError
   \<and> load_questions (Document (JInt 7)) = Inl TypeError"
proof -
  have v1: "valid_entry (JObj sample_q1)" by code_simp
  have v2: "valid_entry (JObj sample_q2)" by code_simp
  have v3: "\<not> valid_entry (JObj (tl sample_q2))" by code_simp
  have v4: "\<not> valid_entry (JInt 7)" by code_simp
  have f3: "failure (JObj (tl sample_q2)) = ValueError (Missing_fields {''id''} (tl sample_q2))"
    by code_simp
  have f4: "failure (JInt 7) = AttributeError" by code_simp
  have a: "load_questions sample_file = Inr (JList [JObj sample_q1, JObj sample_q2])"
    using load_questions_all_or_nothing[where data = "[JObj sample_q1, JObj sample_q2]"
        and bank = "JList [JObj sample_q1, JObj sample_q2]"] v1 v2
    by (simp add: sample_file_def)
  have b: "load_questions (Document (JList ([JObj sample_q1] @ JObj (tl sample_q2) # [JObj sample_q2])))
       = Inl (failure (JObj (tl sample_q2)))"
    using load_questions_all_or_nothing[where pre = "[JObj sample_q1]" and q = "JObj (tl sample_q2)"
        and post = "[JObj sample_q2]"]
      v1 v3 by simp
  have c: "load_questions (Document (JList ([JObj sample_q1] @ JInt 7 # []))) = Inl (failure (JInt 7))"
    using load_questions_all_or_nothing[where pre = "[JObj sample_q1]" and q = "JInt 7" and post = "[]"] v1 v4 by simp
  have d: "load_questions (Document (JInt 7)) = Inl TypeError"
    using load_questions_all_or_nothing[where doc = "JInt 7"] by simp
  show ?thesis using v1 v2 v3 v4 a b c d f3 f4 by simp
qed

text \<open>
  Claim C4. When the bank loads with \<open>n \<ge> 1\<close> questions, \<^verbatim>\<open>build_quiz_session\<close> returns,
  for every integer amount \<open>a\<close> and every state of the random source, a session whose
  question list has \<open>max 1 (min a n)\<close> entries, with \<open>idx = 0\<close>, \<open>score = 0\<close>, an empty
  answer log, the given time stamp, and \<open>score_saved\<close> set to false.
\<close>

theorem build_quiz_session_length:
  assumes "load_questions file = Inr (JList bank)" and "bank \<noteq> []"
  shows "\<exists>s' g' qs. build_quiz_session a file now g s = Inr (s', g')
      \<and> quiz s' = Some qs
      \<and> int (length (questions qs)) = max 1 (min a (int (length bank)))
      \<and> idx qs = 0 \<and> score qs = 0 \<and> answers qs = [] \<and> started_at qs = now
      \<and> score_saved s' = Some False"
proof -
  from build_quiz_session_ok[OF assms(1), of a now g s] obtain prepared g' where
    b: "build_quiz_session a file now g s =
          Inr (s\<lparr>quiz := Some (fresh_quiz prepared now), score_saved := Some False\<rparr>, g')"
       "length prepared = min (nat (max 1 (min a (int (length bank))))) (length bank)" by blast
  define m where "m = max 1 (min a (int (length bank)))"
  have "1 \<le> int (length bank)" using assms(2) by (cases bank) simp_all
  then have m: "1 \<le> m" "m \<le> int (length bank)" by (simp_all add: m_def)
  then have "nat m \<le> length bank" by (simp add: nat_le_iff)
  then have "length prepared = nat m" using b(2) by (simp add: m_def min_absorb1)
  then have "int (length prepared) = max 1 (min a (int (length bank)))"
    using m(1) by (simp add: m_def)
  with b(1) show ?thesis by (simp add: fresh_quiz_def)
qed

theorem build_quiz_session_length_witness:
  "load_questions sample_file = Inr (JList [JObj sample_q1, JObj sample_q2])
   \<and> (\<exists>s' g' qs. build_quiz_session 5 sample_file ''t0'' (\<lambda>k. k) new_visitor
          = Inr (s', g')
        \<and> quiz s' = Some qs \<and> length (questions qs) = 2
        \<and> idx qs = 0 \<and> score qs = 0 \<and> answers qs = [] \<and> score_saved s' = Some False)"
  using sample_bank_loads
    build_quiz_session_length[OF sample_bank_loads, of 5 "''t0''" "\<lambda>k. k" new_visitor]
  by (simp, blast)

text \<open>
  Claim C9. Every session reached from a session built by \<^verbatim>\<open>build_quiz_session\<close> through
  any sequence of \<^verbatim>\<open>answer\<close> requests (valid letters or not, before or after the last
  question) satisfies: no request fails, \<open>0 \<le> idx \<le> length questions\<close>, the answer log has
  \<open>idx\<close> entries, and the score is the number of log entries whose \<open>is_correct\<close> is true;
  hence the score is at most the position.
\<close>

theorem reachable_session_invariant:
  assumes "build_quiz_session a file now g s = Inr (s0, g')"
  shows "\<exists>s' qs. answer_all cs s0 = Inr s'
      \<and> quiz s' = Some qs
      \<and> 0 \<le> idx qs \<and> idx qs \<le> int (length (questions qs))
      \<and> int (length (answers qs)) = idx qs
      \<and> score qs = int (length (filter is_correct (answers qs)))
      \<and> score qs \<le> idx qs"
proof -
  have "well_formed s0" using assms by (rule build_quiz_session_well_formed)
  from answer_all_well_formed[OF this, of cs] obtain s' where
    s': "answer_all cs s0 = Inr s'" "well_formed s'" by blast
  from s'(2) obtain qs where q: "quiz s' = Some qs"
    "0 \<le> idx qs" "idx qs \<le> int (length (questions qs))"
    "int (length (answers qs)) = idx qs"
    "score qs = int (length (filter is_correct (answers qs)))"
    by (auto simp: well_formed_def session_invariant_def split: option.splits)
  have "length (filter is_correct (answers qs)) \<le> length (answers qs)" by simp
  then have "score qs \<le> idx qs" using q(4,5) by linarith
  with s'(1) q show ?thesis by blast
qed

theorem reachable_session_invariant_witness:
  "\<exists>s0 g' s' qs.
     build_quiz_session 2 sample_file ''t0'' (\<lambda>k. k) new_visitor = Inr (s0, g')
     \<and> answer_all [Some ''a'', Some ''?'', None, Some ''b'', Some ''c''] s0 = Inr s'
     \<and> quiz s' = Some qs
     \<and> 0 \<le> idx qs \<and> idx qs \<le> int (length (questions qs))
     \<and> int (length (answers qs)) = idx qs
     \<and> score qs = int (length (filter is_correct (answers qs)))"
proof -
  from build_quiz_session_ok[OF sample_bank_loads, of 2 "''t0''" "\<lambda>k. k" new_visitor]
  obtain s0 g' where
    b: "build_quiz_session 2 sample_file ''t0'' (\<lambda>k. k) new_visitor = Inr (s0, g')"
    by blast
  from reachable_session_invariant[OF b, of "[Some ''a'', Some ''?'', None, Some ''b'', Some ''c'']"]
  show ?thesis using b by blast
qed

text \<open>
  Claim C6. \<^verbatim>\<open>grade_rank(score, total)\<close> returns the "unavailable" band when
  \<open>total \<le> 0\<close>. Otherwise it classifies \<open>percent = score / total\<close> by the breakpoints 1.0,
  0.8, 0.6, 0.4, highest first, first match wins: for every total up to \<open>2 ^ 50\<close> (and any
  score of magnitude up to \<open>2 ^ 1000\<close>) the band computed on the rounded double quotient
  against the double literals is the band of the exact fraction, \<open>band (score / total)\<close>;
  and for every total, a score between 0 and the total gives a band (the division does
  not overflow). In particular 10/10 is Excelente, 8/10 Muito bom, 5/10 Regular, and 0/0
  the unavailable band.
\<close>

theorem grade_rank_bands:
  "(t \<le> 0 \<longrightarrow> grade_rank s t = Inr Resultado_indisponivel)
   \<and> (0 < t \<and> t \<le> 2 ^ 50 \<and> \<bar>s\<bar> \<le> 2 ^ 1000 \<longrightarrow>
        grade_rank s t = Inr (band (of_int s / of_int t)))
   \<and> (0 \<le> s \<and> s \<le> t \<longrightarrow> (\<exists>r. grade_rank s t = Inr r))
   \<and> grade_rank 10 10 = Inr Excelente
   \<and> grade_rank 8 10 = Inr Muito_bom
   \<and> grade_rank 5 10 = Inr Regular
   \<and> grade_rank 0 0 = Inr Resultado_indisponivel"
proof (intro conjI impI)
  show "grade_rank s t = Inr Resultado_indisponivel" if "t \<le> 0"
    using that by (simp add: grade_rank_def)
  show "grade_rank s t = Inr (band (of_int s / of_int t))"
    if "0 < t \<and> t \<le> 2 ^ 50 \<and> \<bar>s\<bar> \<le> 2 ^ 1000"
    using that by (intro grade_rank_exact) simp_all
  show "\<exists>r. grade_rank s t = Inr r" if "0 \<le> s \<and> s \<le> t"
  proof -
    from that have "0 \<le> s" "s \<le> int (nat t)" "int (nat t) = t" by simp_all
    from grade_rank_returns[OF this(1,2)] this(3) show ?thesis by simp
  qed
  show "grade_rank 10 10 = Inr Excelente"
    using grade_rank_exact[of 10 10] by (simp add: band_def)
  show "grade_rank 8 10 = Inr Muito_bom"
    using grade_rank_exact[of 10 8] by (simp add: band_def)
  show "grade_rank 5 10 = Inr Regular"
    using grade_rank_exact[of 10 5] by (simp add: band_def)
  show "grade_rank 0 0 = Inr Resultado_indisponivel" by (simp add: grade_rank_def)
qed

theorem grade_rank_bands_witness:
  "grade_rank 3 0 = Inr Resultado_indisponivel
   \<and> (0::int) < 5 \<and> (5::int) \<le> 2 ^ 50 \<and> \<bar>3::int\<bar> \<le> 2 ^ 1000
   \<and> grade_rank 3 5 = Inr Bom
   \<and> grade_rank 1 5 = Inr Iniciante
   \<and> (\<exists>r. grade_rank 3 5 = Inr r)"
proof -
  have a: "grade_rank 3 0 = Inr Resultado_indisponivel"
    using grade_rank_bands[of 0 3] by simp
  have b: "grade_rank 3 5 = Inr (band (of_int 3 / of_int 5))"
    using grade_rank_bands[of 5 3] by simp
  have c: "grade_rank 1 5 = Inr (band (of_int 1 / of_int 5))"
    using grade_rank_bands[of 5 1] by simp
  show ?thesis using a b c by (simp add: band_def)
qed

text \<open>
  Claim C7. However many times the result view is requested for a session (one whose
  score is between 0 and the number of its questions), the requests all succeed and
  together insert at most one leaderboard row: none once the persisted flag is true, and
  exactly one, at the first request, when a quiz is active and the flag is not yet true.
  Two consecutive requests on the same session therefore insert exactly one row.
\<close>

theorem result_inserts_at_most_once:
  assumes "score_in_range s"
  shows "\<exists>s' db'. view_results nows s db = Inr (s', db')
      \<and> (db' = db \<or> (\<exists>row. db' = db @ [row]))
      \<and> (score_saved s = Some True \<longrightarrow> db' = db)
      \<and> (quiz s \<noteq> None \<and> score_saved s \<noteq> Some True \<and> nows \<noteq> [] \<longrightarrow>
           length db' = length db + 1 \<and> score_saved s' = Some True)"
proof (cases "quiz s = None")
  case True
  from view_results_no_quiz[OF this, of nows db] show ?thesis using True by auto
next
  case q: False
  show ?thesis
  proof (cases "score_saved s = Some True")
    case True
    from view_results_saved[OF assms q this, of nows db] show ?thesis using True by simp
  next
    case f: False
    show ?thesis
    proof (cases nows)
      case Nil then show ?thesis by simp
    next
      case (Cons now rest)
      from view_results_unsaved[OF assms q f, of now rest db] obtain row where
        "view_results (now # rest) s db = Inr (s\<lparr>score_saved := Some True\<rparr>, db @ [row])" ..
      then show ?thesis using Cons f by auto
    qed
  qed
qed

theorem result_inserts_at_most_once_witness:
  "score_in_range sample_session \<and> quiz sample_session \<noteq> None
   \<and> score_saved sample_session \<noteq> Some True
   \<and> (\<exists>s' db'. view_results [''t1'', ''t2''] sample_session [] = Inr (s', db')
        \<and> length db' = 1 \<and> score_saved s' = Some True)"
proof -
  have h: "score_in_range sample_session" by (simp add: score_in_range_def sample_session_def)
  have q: "quiz sample_session \<noteq> None" by (simp add: sample_session_def)
  have f: "score_saved sample_session \<noteq> Some True" by (simp add: sample_session_def)
  from result_inserts_at_most_once[OF h, of "[''t1'', ''t2'']" "[]"] q f
  show ?thesis using h by auto
qed

text \<open>
  Claim C8 says that the result view inserts no leaderboard row while the position is
  below the number of questions. The code has no such guard: on the sample session, still
  at its first question of two, \<^verbatim>\<open>result\<close> renders the page, inserts a row and sets the
  persisted flag, so that the final score of this session is never written.
\<close>

theorem result_before_terminal_inserts:
  "idx (the (quiz sample_session)) < int (length (questions (the (quiz sample_session))))
   \<and> result ''t1'' sample_session [] =
       Inr (Result_page ''Ann'' 0 2 (Fin 0) Iniciante [],
            sample_session\<lparr>score_saved := Some True\<rparr>,
            [\<lparr>name_col = ''Ann'', score_col = 0, total_col = 2, percent_col = Fin 0,
              created_at_col = ''t1''\<rparr>])"
proof -
  have g: "grade_rank 0 2 = Inr Iniciante" using grade_rank_exact[of 2 0] by (simp add: band_def)
  have d: "py_truediv 0 2 = Inr 0" by (simp add: py_truediv_def fl_def overflows_def)
  have m: "float_mul 0 100 = Fin 0" by (simp add: float_mul_def fl_def overflows_def)
  show ?thesis
    by (simp add: result_def current_quiz_def sample_session_def percent_of_def g d m Let_def)
qed

text \<open>
  Claim C10 says that an amount that is not a number or is outside 1..bank size becomes
  the caller's default. That holds for an amount that is not a number; a number outside
  the range becomes the nearest bound instead: with a bank of 2 questions (default 2) the
  amount "0" starts a quiz of 1 question.
\<close>

theorem start_out_of_range_not_default:
  "py_int ''0'' = Some 0
   \<and> min 10 (question_count sample_file) = 2
   \<and> amount (fst (snd (projr
        (start None (Some ''0'') sample_file ''t'' (\<lambda>_. 0) new_visitor))))
       = Some 1"
  by code_simp

text \<open>
  Claim C10, amended. When the bank loads with at least one question, \<^verbatim>\<open>start\<close> does not
  fail for any name and amount fields: it stores the amount and redirects to the quiz,
  and the session built has that many questions, between 1 and the bank size. The amount
  is the default \<open>min 10 n\<close> when the field is missing or \<^verbatim>\<open>int()\<close> refuses it (text that
  is not a numeral, or a numeral of more than 4300 digits), 1 when the number is below 1,
  the bank size \<open>n\<close> when it is above \<open>n\<close>, and the number itself otherwise.
\<close>

theorem start_clamps_amount:
  assumes "load_questions file = Inr (JList bank)" and "bank \<noteq> []"
  shows "\<exists>s' g' qs. start name_field amount_field file now g s = Inr (Redirect ''quiz'', s', g')
      \<and> quiz s' = Some qs
      \<and> amount s' = Some (int (length (questions qs)))
      \<and> 1 \<le> length (questions qs) \<and> length (questions qs) \<le> length bank
      \<and> int (length (questions qs)) =
          (case py_int (case amount_field of None \<Rightarrow> [] | Some a \<Rightarrow> a) of
             None \<Rightarrow> min 10 (int (length bank))
           | Some x \<Rightarrow> if x < 1 then 1 else if int (length bank) < x then int (length bank) else x)"
proof -
  let ?n = "int (length bank)"
  let ?raw = "case amount_field of None \<Rightarrow> [] | Some a \<Rightarrow> a"
  from start_ok[OF assms, of name_field amount_field now g s] obtain s1 prepared g' where
    r: "start name_field amount_field file now g s =
        Inr (Redirect ''quiz'', s1\<lparr>quiz := Some (fresh_quiz prepared now), score_saved := Some False\<rparr>, g')"
       "amount s1 = Some (clamp_int ?raw (min 10 ?n) 1 ?n)"
       "int (length prepared) = clamp_int ?raw (min 10 ?n) 1 ?n" by blast
  have n: "1 \<le> ?n" using assms(2) by (cases bank) simp_all
  have c: "clamp_int ?raw (min 10 ?n) 1 ?n =
      (case py_int ?raw of None \<Rightarrow> min 10 ?n
       | Some x \<Rightarrow> if x < 1 then 1 else if ?n < x then ?n else x)"
    using n by (auto simp: clamp_int_def split: option.splits)
  have rng: "1 \<le> clamp_int ?raw (min 10 ?n) 1 ?n \<and> clamp_int ?raw (min 10 ?n) 1 ?n \<le> ?n"
    by (rule clamp_int_range) (use n in simp_all)
  then have l: "1 \<le> length prepared" "length prepared \<le> length bank" using r(3) by linarith+
  let ?s' = "s1\<lparr>quiz := Some (fresh_quiz prepared now), score_saved := Some False\<rparr>"
  have a: "amount ?s' = Some (int (length prepared))" by (simp add: r(2) r(3))
  have e: "int (length prepared) =
      (case py_int ?raw of None \<Rightarrow> min 10 ?n
       | Some x \<Rightarrow> if x < 1 then 1 else if ?n < x then ?n else x)"
    by (simp only: r(3) c)
  have q: "quiz ?s' = Some (fresh_quiz prepared now)" by simp
  have qq: "questions (fresh_quiz prepared now) = prepared" by (simp add: fresh_quiz_def)
  show ?thesis
    by (intro exI[of _ ?s'] exI[of _ g'] exI[of _ "fresh_quiz prepared now"] conjI)
       (simp_all only: r(1) q qq a l e)
qed

theorem start_clamps_amount_witness:
  "load_questions sample_file = Inr (JList [JObj sample_q1, JObj sample_q2])
   \<and> py_int ''abc'' = None
   \<and> py_int [char_of (31 :: nat), CHR ''1''] = None
   \<and> (\<exists>s' g' qs. start (Some ''Ann'') (Some ''abc'') sample_file ''t'' (\<lambda>k. k) new_visitor
          = Inr (Redirect ''quiz'', s', g')
        \<and> quiz s' = Some qs \<and> amount s' = Some 2 \<and> length (questions qs) = 2)
   \<and> (\<exists>s' g' qs. start None (Some [char_of (31 :: nat), CHR ''1'']) sample_file ''t'' (\<lambda>k. k)
            new_visitor
          = Inr (Redirect ''quiz'', s', g')
        \<and> quiz s' = Some qs \<and> amount s' = Some 2 \<and> length (questions qs) = 2)"
proof -
  have p: "py_int ''abc'' = None" by code_simp
  have p': "py_int [char_of (31 :: nat), CHR ''1''] = None" by code_simp
  from start_clamps_amount[OF sample_bank_loads, of "Some ''Ann''" "Some ''abc''" "''t''"
      "\<lambda>k. k" new_visitor]
  obtain s' g' qs where r:
    "start (Some ''Ann'') (Some ''abc'') sample_file ''t'' (\<lambda>k. k) new_visitor
       = Inr (Redirect ''quiz'', s', g')"
    "quiz s' = Some qs" "amount s' = Some (int (length (questions qs)))"
    "int (length (questions qs)) = 2"
    by (auto simp: p)
  from start_clamps_amount[OF sample_bank_loads, of None "Some [char_of (31 :: nat), CHR ''1'']"
      "''t''" "\<lambda>k. k" new_visitor]
  obtain t' h' rs where r':
    "start None (Some [char_of (31 :: nat), CHR ''1'']) sample_file ''t'' (\<lambda>k. k) new_visitor
       = Inr (Redirect ''quiz'', t', h')"
    "quiz t' = Some rs" "amount t' = Some (int (length (questions rs)))"
    "int (length (questions rs)) = 2"
    by (auto simp: p')
  from r have a: "\<exists>s' g' qs. start (Some ''Ann'') (Some ''abc'') sample_file ''t'' (\<lambda>k. k) new_visitor
          = Inr (Redirect ''quiz'', s', g')
        \<and> quiz s' = Some qs \<and> amount s' = Some 2 \<and> length (questions qs) = 2"
    by (intro exI[of _ s'] exI[of _ g'] exI[of _ qs]) simp
  from r' have b: "\<exists>s' g' qs. start None (Some [char_of (31 :: nat), CHR ''1'']) sample_file ''t''
            (\<lambda>k. k) new_visitor
          = Inr (Redirect ''quiz'', s', g')
        \<and> quiz s' = Some qs \<and> amount s' = Some 2 \<and> length (questions qs) = 2"
    by (intro exI[of _ t'] exI[of _ h'] exI[of _ rs]) simp
  show ?thesis using sample_bank_loads p p' a b by (intro conjI)
qed

end
